theory Spec2Isabelle
  imports Main "HOL-Library.Char_ord" "HOL-Library.List_Lexorder" "HOL-Library.Multiset"
begin

section \<open>Characters and strings of the lab catalog generator\<close>

text \<open>
  The script \<^verbatim>\<open>generate_lab_catalog.py\<close> works on Python \<^verbatim>\<open>str\<close> values. A character is
  modelled as a \<^typ>\<open>char\<close>, read as the code point of the same number (U+0000 to U+00FF);
  code points above U+00FF are outside the model. The character classes below are the ones
  Python's \<^verbatim>\<open>re\<close> module and \<^verbatim>\<open>str\<close> methods use on that range.
\<close>

definition code :: "char \<Rightarrow> nat" where
  "code c = of_char c"

definition py_isspace :: "char \<Rightarrow> bool" where
  \<comment> \<open>\<^verbatim>\<open>str.isspace\<close> and the class \<^verbatim>\<open>\s\<close> of a str pattern\<close>
  "py_isspace c = (let n = code c in
     (9 \<le> n \<and> n \<le> 13) \<or> (28 \<le> n \<and> n \<le> 32) \<or> n = 133 \<or> n = 160)"

definition py_isdigit :: "char \<Rightarrow> bool" where
  \<comment> \<open>the class \<^verbatim>\<open>\d\<close> of a str pattern\<close>
  "py_isdigit c = (let n = code c in 48 \<le> n \<and> n \<le> 57)"

definition py_isword :: "char \<Rightarrow> bool" where
  \<comment> \<open>the class \<^verbatim>\<open>\w\<close> of a str pattern: alphanumeric or underscore\<close>
  "py_isword c = (let n = code c in
     (48 \<le> n \<and> n \<le> 57) \<or> (65 \<le> n \<and> n \<le> 90) \<or> n = 95 \<or> (97 \<le> n \<and> n \<le> 122)
     \<or> n = 170 \<or> n = 178 \<or> n = 179 \<or> n = 181 \<or> n = 185 \<or> n = 186
     \<or> (188 \<le> n \<and> n \<le> 190) \<or> (192 \<le> n \<and> n \<le> 214) \<or> (216 \<le> n \<and> n \<le> 246)
     \<or> 248 \<le> n)"

definition py_lower_char :: "char \<Rightarrow> char" where
  \<comment> \<open>\<^verbatim>\<open>str.lower\<close> on one character\<close>
  "py_lower_char c = (let n = code c in
     if (65 \<le> n \<and> n \<le> 90) \<or> (192 \<le> n \<and> n \<le> 214) \<or> (216 \<le> n \<and> n \<le> 222)
     then char_of (n + 32) else c)"

definition py_lower :: "string \<Rightarrow> string" where
  "py_lower s = map py_lower_char s"

abbreviation newline :: char where
  "newline \<equiv> CHR 0x0A"

definition lstrip :: "string \<Rightarrow> string" where
  "lstrip s = dropWhile py_isspace s"

definition rstrip :: "string \<Rightarrow> string" where
  "rstrip s = rev (dropWhile py_isspace (rev s))"

definition strip :: "string \<Rightarrow> string" where
  \<comment> \<open>\<^verbatim>\<open>str.strip()\<close>\<close>
  "strip s = rstrip (lstrip s)"

definition slice :: "string \<Rightarrow> nat \<Rightarrow> nat \<Rightarrow> string" where
  \<comment> \<open>\<^verbatim>\<open>s[i:j]\<close> for \<open>0 \<le> i\<close>, \<open>0 \<le> j\<close>\<close>
  "slice s i j = take (j - i) (drop i s)"

definition startswith :: "string \<Rightarrow> string \<Rightarrow> bool" where
  "startswith s p = (take (length p) s = p)"

fun split_on :: "char \<Rightarrow> string \<Rightarrow> string list" where
  \<comment> \<open>\<^verbatim>\<open>str.split(sep)\<close> for a separator of one character\<close>
  "split_on sep [] = [[]]"
| "split_on sep (c # cs) =
     (if c = sep then [] # split_on sep cs
      else (case split_on sep cs of
              w # ws \<Rightarrow> (c # w) # ws
            | [] \<Rightarrow> [[c]]))"

fun split_ws_aux :: "string \<Rightarrow> string \<Rightarrow> string list" where
  "split_ws_aux w [] = (if w = [] then [] else [rev w])"
| "split_ws_aux w (c # cs) =
     (if py_isspace c then (if w = [] then split_ws_aux [] cs else rev w # split_ws_aux [] cs)
      else split_ws_aux (c # w) cs)"

definition split_ws :: "string \<Rightarrow> string list" where
  \<comment> \<open>\<^verbatim>\<open>str.split()\<close>: the maximal runs of characters that are not whitespace\<close>
  "split_ws s = split_ws_aux [] s"

fun join :: "string \<Rightarrow> string list \<Rightarrow> string" where
  \<comment> \<open>\<^verbatim>\<open>sep.join(xs)\<close>\<close>
  "join sep [] = []"
| "join sep [x] = x"
| "join sep (x # y # ys) = x @ sep @ join sep (y # ys)"

section \<open>Regular expressions\<close>

text \<open>
  The patterns of the script use literals, the classes \<^verbatim>\<open>.\<close>, \<^verbatim>\<open>\s\<close> and \<^verbatim>\<open>['"]\<close>, the
  anchors \<^verbatim>\<open>^\<close>, \<^verbatim>\<open>$\<close> and \<^verbatim>\<open>\b\<close>, sequence, alternation, greedy and lazy repetition and one
  capture group. \<open>ends\<close> is a backtracking matcher: it lists, in the order in which
  Python's engine tries them, the positions at which a match starting at \<open>i\<close> can end,
  each with the span of the capture group if it took part. The first element is the match
  that \<^verbatim>\<open>re\<close> reports.
\<close>

datatype regex =
    Eps
  | Lit char
  | Dot
  | Space
  | Digit
  | OneOf "char list"
  | Bol
  | Eol
  | WordB
  | Seq regex regex
  | Alt regex regex
  | Star regex
  | LazyStar regex
  | Group nat regex

record flags =
  ignorecase :: bool
  multiline :: bool
  dotall :: bool

definition Opt :: "regex \<Rightarrow> regex" where
  \<comment> \<open>\<^verbatim>\<open>r?\<close>\<close>
  "Opt r = Alt r Eps"

definition Plus :: "regex \<Rightarrow> regex" where
  \<comment> \<open>\<^verbatim>\<open>r+\<close>\<close>
  "Plus r = Seq r (Star r)"

definition LazyPlus :: "regex \<Rightarrow> regex" where
  \<comment> \<open>\<^verbatim>\<open>r+?\<close>\<close>
  "LazyPlus r = Seq r (LazyStar r)"

fun Str :: "string \<Rightarrow> regex" where
  \<comment> \<open>a run of literal characters\<close>
  "Str [] = Eps"
| "Str [c] = Lit c"
| "Str (c # cs) = Seq (Lit c) (Str cs)"

fun seqs :: "regex list \<Rightarrow> regex" where
  "seqs [] = Eps"
| "seqs [r] = r"
| "seqs (r # rs) = Seq r (seqs rs)"

definition chr_eq :: "flags \<Rightarrow> char \<Rightarrow> char \<Rightarrow> bool" where
  "chr_eq f p c = (if ignorecase f then py_lower_char c = py_lower_char p else c = p)"

definition word_at :: "string \<Rightarrow> nat \<Rightarrow> bool" where
  "word_at s i = (i < length s \<and> py_isword (s ! i))"

definition word_before :: "string \<Rightarrow> nat \<Rightarrow> bool" where
  "word_before s i = (0 < i \<and> i \<le> length s \<and> py_isword (s ! (i - 1)))"

type_synonym span = "nat \<times> nat"

type_synonym caps = "(nat \<times> span) list"

definition later :: "caps \<Rightarrow> caps \<Rightarrow> caps" where
  \<comment> \<open>captures of the later part of a match come first, so that they win in a lookup\<close>
  "later g g' = g' @ g"

function ends :: "flags \<Rightarrow> regex \<Rightarrow> string \<Rightarrow> nat \<Rightarrow> (nat \<times> caps) list" where
  "ends f Eps s i = [(i, [])]"
| "ends f (Lit c) s i = (if i < length s \<and> chr_eq f c (s ! i) then [(Suc i, [])] else [])"
| "ends f Dot s i = (if i < length s \<and> (dotall f \<or> s ! i \<noteq> newline) then [(Suc i, [])] else [])"
| "ends f Space s i = (if i < length s \<and> py_isspace (s ! i) then [(Suc i, [])] else [])"
| "ends f Digit s i = (if i < length s \<and> py_isdigit (s ! i) then [(Suc i, [])] else [])"
| "ends f (OneOf cs) s i =
     (if i < length s \<and> list_ex (\<lambda>c. chr_eq f c (s ! i)) cs then [(Suc i, [])] else [])"
| "ends f Bol s i =
     (if i = 0 \<or> (multiline f \<and> i \<le> length s \<and> s ! (i - 1) = newline) then [(i, [])] else [])"
| "ends f Eol s i =
     (if i = length s \<or> (Suc i = length s \<and> s ! i = newline)
         \<or> (multiline f \<and> i < length s \<and> s ! i = newline) then [(i, [])] else [])"
| "ends f WordB s i = (if word_before s i \<noteq> word_at s i then [(i, [])] else [])"
| "ends f (Seq a b) s i =
     concat (map (\<lambda>(j, g). map (\<lambda>(k, g'). (k, later g g')) (ends f b s j)) (ends f a s i))"
| "ends f (Alt a b) s i = ends f a s i @ ends f b s i"
| "ends f (Star a) s i =
     concat (map (\<lambda>(j, g). if i < j \<and> j \<le> length s
                            then map (\<lambda>(k, g'). (k, later g g')) (ends f (Star a) s j) else [])
                 (ends f a s i)) @ [(i, [])]"
| "ends f (LazyStar a) s i =
     (i, []) # concat (map (\<lambda>(j, g). if i < j \<and> j \<le> length s
                            then map (\<lambda>(k, g'). (k, later g g')) (ends f (LazyStar a) s j) else [])
                 (ends f a s i))"
| "ends f (Group n a) s i = map (\<lambda>(j, g). (j, (n, (i, j)) # g)) (ends f a s i)"
  by pat_completeness auto
termination
  by (relation "measures [\<lambda>(f, r, s, i). size r, \<lambda>(f, r, s, i). length s - i]") auto

text \<open>
  A match object: where the match starts, where it ends, and its captures.
  \<^verbatim>\<open>re.match\<close> tries position 0 only, \<^verbatim>\<open>re.search\<close> the positions from 0 to the length
  of the string, in order.
\<close>

record match =
  m_start :: nat
  m_end :: nat
  m_caps :: caps

definition re_match :: "flags \<Rightarrow> regex \<Rightarrow> string \<Rightarrow> match option" where
  "re_match f r s =
     (case ends f r s 0 of
        [] \<Rightarrow> None
      | (j, g) # _ \<Rightarrow> Some \<lparr>m_start = 0, m_end = j, m_caps = g\<rparr>)"

fun search_from :: "flags \<Rightarrow> regex \<Rightarrow> string \<Rightarrow> nat \<Rightarrow> nat \<Rightarrow> match option" where
  "search_from f r s i 0 = None"
| "search_from f r s i (Suc n) =
     (case ends f r s i of
        [] \<Rightarrow> search_from f r s (Suc i) n
      | (j, g) # _ \<Rightarrow> Some \<lparr>m_start = i, m_end = j, m_caps = g\<rparr>)"

definition re_search :: "flags \<Rightarrow> regex \<Rightarrow> string \<Rightarrow> match option" where
  "re_search f r s = search_from f r s 0 (Suc (length s))"

definition group :: "string \<Rightarrow> match \<Rightarrow> nat \<Rightarrow> string" where
  \<comment> \<open>\<^verbatim>\<open>m.group(n)\<close> of a group that took part in the match; group 0 is the whole match\<close>
  "group s m n =
     (if n = 0 then slice s (m_start m) (m_end m)
      else (case map_of (m_caps m) n of None \<Rightarrow> [] | Some (a, b) \<Rightarrow> slice s a b))"

function findall_from :: "flags \<Rightarrow> regex \<Rightarrow> string \<Rightarrow> nat \<Rightarrow> string list" where
  "findall_from f r s i =
     (if length s < i then []
      else (case ends f r s i of
              [] \<Rightarrow> findall_from f r s (Suc i)
            | (j, g) # _ \<Rightarrow>
                slice s i j # findall_from f r s (if i < j \<and> j \<le> length s then j else Suc i)))"
  by pat_completeness auto
termination
  by (relation "measure (\<lambda>(f, r, s, i). Suc (length s) - i)") auto

definition re_findall :: "flags \<Rightarrow> regex \<Rightarrow> string \<Rightarrow> string list" where
  \<comment> \<open>\<^verbatim>\<open>re.findall\<close> for a pattern without capture groups: the matched substrings, left to
      right, without overlap\<close>
  "re_findall f r s = findall_from f r s 0"

section \<open>The content parser\<close>

definition no_flags :: flags where
  "no_flags = \<lparr>ignorecase = False, multiline = False, dotall = False\<rparr>"

definition squote :: char where
  "squote = CHR 0x27"

definition dquote :: char where
  "dquote = CHR 0x22"

definition frontmatter_re :: regex where
  \<comment> \<open>\<^verbatim>\<open>^---\s*\n(.*?)\n---\s*\n\<close>\<close>
  "frontmatter_re = seqs [Bol, Str ''---'', Star Space, Lit newline, Group 1 (LazyStar Dot),
                          Lit newline, Str ''---'', Star Space, Lit newline]"

definition title_re :: regex where
  \<comment> \<open>\<^verbatim>\<open>title:\s*['"](.+?)['"]\<close>\<close>
  "title_re = seqs [Str ''title:'', Star Space, OneOf [squote, dquote], Group 1 (LazyPlus Dot),
                    OneOf [squote, dquote]]"

definition desc_re :: regex where
  \<comment> \<open>\<^verbatim>\<open>description:\s*['"](.+?)['"]\<close>\<close>
  "desc_re = seqs [Str ''description:'', Star Space, OneOf [squote, dquote], Group 1 (LazyPlus Dot),
                   OneOf [squote, dquote]]"

definition h1_re :: regex where
  \<comment> \<open>\<^verbatim>\<open>^#\s+(.+)$\<close>\<close>
  "h1_re = seqs [Bol, Lit (CHR ''#''), Plus Space, Group 1 (Plus Dot), Eol]"

text \<open>
  The loop of \<^verbatim>\<open>parse_frontmatter\<close> over the lines of the document: \<open>in_content\<close> and
  \<open>desc_lines\<close> are its two variables, \<^verbatim>\<open>continue\<close> is the recursive call on the rest and
  \<^verbatim>\<open>break\<close> returns.
\<close>

fun desc_loop :: "bool \<Rightarrow> string list \<Rightarrow> string list \<Rightarrow> string list" where
  "desc_loop in_content desc_lines [] = desc_lines"
| "desc_loop in_content desc_lines (line # lines) =
     (if startswith line ''# '' then desc_loop True desc_lines lines
      else if in_content \<and> strip line \<noteq> [] \<and> \<not> startswith line ''#'' \<and> \<not> startswith line ''!''
      then (let desc_lines' = desc_lines @ [strip line]
            in if 100 < length (join '' '' desc_lines') then desc_lines'
               else desc_loop in_content desc_lines' lines)
      else desc_loop in_content desc_lines lines)"

definition parse_frontmatter :: "string \<Rightarrow> string \<times> string" where
  "parse_frontmatter content =
     (case re_match (no_flags\<lparr>dotall := True\<rparr>) frontmatter_re content of
        Some m \<Rightarrow>
          (let frontmatter = group content m 1;
               title_match = re_search no_flags title_re frontmatter;
               desc_match = re_search no_flags desc_re frontmatter;
               title = (case title_match of Some t \<Rightarrow> group frontmatter t 1 | None \<Rightarrow> []);
               description = (case desc_match of Some d \<Rightarrow> group frontmatter d 1 | None \<Rightarrow> [])
           in (title, description))
      | None \<Rightarrow>
          (case re_search (no_flags\<lparr>multiline := True\<rparr>) h1_re content of
             Some h1_match \<Rightarrow>
               (let title = strip (group content h1_match 1);
                    lines = split_on newline content;
                    desc_lines = desc_loop False [] lines;
                    description = take 200 (join '' '' desc_lines)
                in (title, description))
           | None \<Rightarrow> ([], [])))"

definition word :: "string \<Rightarrow> regex" where
  \<comment> \<open>a literal between two \<^verbatim>\<open>\b\<close>\<close>
  "word w = seqs [WordB, Str w, WordB]"

definition words :: "string list \<Rightarrow> regex" where
  \<comment> \<open>literals separated by \<^verbatim>\<open>\s+\<close>\<close>
  "words ws = seqs (concat (map (\<lambda>w. [Plus Space, Str w]) ws))"

definition tech_patterns :: "regex list" where
  "tech_patterns =
    [seqs [WordB, Str ''Azure'', Plus Space, Str ''OpenAI'', WordB],
     seqs [WordB, Str ''GPT-4'', Opt (Lit (CHR ''o'')), WordB],
     seqs [WordB, Str ''Foundry'', WordB],
     seqs [WordB, Str ''prompt'', Plus Space, Str ''flow'', WordB],
     seqs [WordB, Str ''RAG'', WordB],
     seqs [WordB, Str ''Retrieval'', Plus Space, Str ''Augmented'', Plus Space,
           Str ''Generation'', WordB],
     seqs [WordB, Str ''Azure'', Plus Space, Str ''AI'', Plus Space,
           Alt (Str ''Services'') (Alt (Str ''Studio'') (Str ''Foundry'')), WordB],
     seqs [WordB, Str ''AI'', Plus Space, Str ''hub'', WordB],
     seqs [WordB, Str ''Python'', Plus Space, Str ''SDK'', WordB],
     seqs [WordB, Str ''TypeScript'', WordB],
     seqs [WordB, Str ''.NET'', WordB],
     seqs [WordB, Str ''fine-tun'', Alt (Str ''e'') (Str ''ing''), WordB],
     seqs [WordB, Str ''content'', Plus Space, Str ''filter'',
           Opt (Alt (Str ''s'') (Str ''ing'')), WordB],
     seqs [WordB, Str ''evaluation'', WordB],
     seqs [WordB, Str ''embedding'', WordB],
     seqs [WordB, Str ''model'', Plus Space, Str ''catalog'', WordB],
     seqs [WordB, Str ''chat'', Plus Space, Alt (Str ''app'') (Str ''playground''), WordB],
     seqs [WordB, Str ''NER'', WordB],
     seqs [WordB, Str ''Named'', Plus Space, Str ''Entity'', Plus Space,
           Str ''Recognition'', WordB]]"

text \<open>
  \<^verbatim>\<open>technologies\<close> is a Python set of strings. It is modelled as a list without
  duplicates; the order in which Python iterates over the set depends on the hashes of its
  elements, so it is a parameter \<open>iter\<close>, a rearrangement of that list.
\<close>

definition set_add :: "string \<Rightarrow> string list \<Rightarrow> string list" where
  "set_add x T = (if x \<in> set T then T else T @ [x])"

definition tech_step :: "string \<Rightarrow> string list \<Rightarrow> regex \<Rightarrow> string list" where
  \<comment> \<open>one round of the loop over \<^verbatim>\<open>tech_patterns\<close>\<close>
  "tech_step content technologies pattern =
     (case re_findall (no_flags\<lparr>ignorecase := True\<rparr>) pattern content of
        [] \<Rightarrow> technologies
      | m # _ \<Rightarrow> set_add (strip m) technologies)"

definition tech_set :: "string \<Rightarrow> string list" where
  "tech_set content = foldl (tech_step content) [] tech_patterns"

definition extract_technologies :: "(string list \<Rightarrow> string list) \<Rightarrow> string \<Rightarrow> string" where
  "extract_technologies iter content =
     (let technologies = tech_set content
      in if technologies \<noteq> [] then join '', '' (sort_key py_lower (iter technologies))
         else ''N/A'')"

section \<open>The provenance lookup\<close>

text \<open>
  What the script gets from outside is a record of functions: the listing of the markdown
  files, the reading of a file, \<^verbatim>\<open>os.path.relpath\<close>, \<^verbatim>\<open>subprocess.run\<close> (return code
  and captured output) and the iteration order of a set of strings. Each of them fails by
  returning an exception on the left. \<open>pads_year\<close> says whether the C library behind
  \<^verbatim>\<open>strftime\<close> pads \<^verbatim>\<open>%Y\<close> to four digits (glibc does not).
\<close>

datatype error = FileNotFoundError | PermissionError | OSError | UnicodeDecodeError
  | ValueError | IndexError

type_synonym path = "string list"

record env =
  listing :: "path \<Rightarrow> path list"
  read_text :: "path \<Rightarrow> error + string"
  relpath :: "string \<Rightarrow> string \<Rightarrow> error + string"
  run :: "string list \<Rightarrow> string \<Rightarrow> error + int \<times> string"
  set_iter :: "string list \<Rightarrow> string list"
  pads_year :: bool

datatype event =
    Found nat path
  | Processing path
  | ErrorProcessing path error
  | Ran "string list" string
  | Warning string error

subsection \<open>Dates\<close>

definition digit19 :: "char list" where
  "digit19 = ''123456789''"

definition year_re :: regex where
  \<comment> \<open>\<^verbatim>\<open>\d\d\d\d\<close>\<close>
  "year_re = seqs [Digit, Digit, Digit, Digit]"

definition month_re :: regex where
  \<comment> \<open>\<^verbatim>\<open>1[0-2]|0[1-9]|[1-9]\<close>\<close>
  "month_re = Alt (Seq (Lit (CHR ''1'')) (OneOf ''012''))
             (Alt (Seq (Lit (CHR ''0'')) (OneOf digit19)) (OneOf digit19))"

definition day_re :: regex where
  \<comment> \<open>\<^verbatim>\<open>3[0-1]|[1-2]\d|0[1-9]|[1-9]| [1-9]\<close>\<close>
  "day_re = Alt (Seq (Lit (CHR ''3'')) (OneOf ''01''))
           (Alt (Seq (OneOf ''12'') Digit)
           (Alt (Seq (Lit (CHR ''0'')) (OneOf digit19))
           (Alt (OneOf digit19) (Seq (Lit (CHR '' '')) (OneOf digit19)))))"

definition date_re :: regex where
  \<comment> \<open>the pattern \<^verbatim>\<open>strptime\<close> builds for \<^verbatim>\<open>%Y-%m-%d\<close>:
      \<^verbatim>\<open>(?P<Y>\d\d\d\d)-(?P<m>1[0-2]|0[1-9]|[1-9])-(?P<d>3[0-1]|[1-2]\d|0[1-9]|[1-9]| [1-9])\<close>\<close>
  "date_re = seqs [Group 1 year_re, Lit (CHR ''-''), Group 2 month_re, Lit (CHR ''-''),
                   Group 3 day_re]"

definition py_int :: "string \<Rightarrow> nat" where
  \<comment> \<open>\<^verbatim>\<open>int(s)\<close> for digits with whitespace around them\<close>
  "py_int s = foldl (\<lambda>n c. 10 * n + (code c - 48)) 0 (strip s)"

definition is_leap :: "nat \<Rightarrow> bool" where
  "is_leap y = (y mod 4 = 0 \<and> (y mod 100 \<noteq> 0 \<or> y mod 400 = 0))"

definition days_in_month :: "nat \<Rightarrow> nat \<Rightarrow> nat" where
  "days_in_month y m =
     (if m = 2 then (if is_leap y then 29 else 28)
      else if m = 4 \<or> m = 6 \<or> m = 9 \<or> m = 11 then 30 else 31)"

definition strptime :: "string \<Rightarrow> error + nat \<times> nat \<times> nat" where
  \<comment> \<open>\<^verbatim>\<open>datetime.strptime(s, '%Y-%m-%d')\<close>: year, month and day, or \<^verbatim>\<open>ValueError\<close>\<close>
  "strptime s =
     (case re_match (no_flags\<lparr>ignorecase := True\<rparr>) date_re s of
        None \<Rightarrow> Inl ValueError
      | Some m \<Rightarrow>
          if m_end m \<noteq> length s then Inl ValueError
          else (let y = py_int (group s m 1); mo = py_int (group s m 2); d = py_int (group s m 3)
                in if y < 1 \<or> days_in_month y mo < d then Inl ValueError
                   else Inr (y, mo, d)))"

fun decimal :: "nat \<Rightarrow> string" where
  "decimal n = (if n < 10 then [char_of (48 + n)] else decimal (n div 10) @ [char_of (48 + n mod 10)])"

definition zfill :: "nat \<Rightarrow> string \<Rightarrow> string" where
  "zfill w s = replicate (w - length s) (CHR ''0'') @ s"

definition strftime :: "bool \<Rightarrow> nat \<times> nat \<times> nat \<Rightarrow> string" where
  \<comment> \<open>\<^verbatim>\<open>date_obj.strftime('%Y-%m-%d')\<close>\<close>
  "strftime pad = (\<lambda>(y, m, d).
     (if pad then zfill 4 (decimal y) else decimal y) @ ''-'' @ zfill 2 (decimal m) @ ''-''
       @ zfill 2 (decimal d))"

subsection \<open>The two queries\<close>

definition git_cmd :: "bool \<Rightarrow> string \<Rightarrow> string list" where
  "git_cmd merges rel_path =
     [''git'', ''log'', ''-1''] @ (if merges then [''--merges''] else [])
       @ [''--format=%ai|%an'', ''--'', rel_path]"

definition read_result :: "bool \<Rightarrow> int \<times> string \<Rightarrow> error + (string \<times> string) option" where
  \<comment> \<open>the \<^verbatim>\<open>if result.returncode == 0 and result.stdout.strip():\<close> block: \<open>Inr None\<close> when
      control leaves the block without returning\<close>
  "read_result pad = (\<lambda>(returncode, stdout).
     if returncode = 0 \<and> strip stdout \<noteq> [] then
       (let parts = split_on (CHR ''|'') (strip stdout)
        in if length parts = 2 then
             (let date_str = parts ! 0; author = parts ! 1
              in (case split_ws date_str of
                    [] \<Rightarrow> Inl IndexError
                  | d # _ \<Rightarrow>
                      (case strptime d of
                         Inl e \<Rightarrow> Inl e
                       | Inr date_obj \<Rightarrow> Inr (Some (strftime pad date_obj, author)))))
           else Inr None)
     else Inr None)"

definition git_try :: "env \<Rightarrow> string \<Rightarrow> string \<Rightarrow> (error + (string \<times> string) option) \<times> event list" where
  \<comment> \<open>the body of the \<^verbatim>\<open>try\<close>, with the commands it ran\<close>
  "git_try env file_path repo_root =
     (case relpath env file_path repo_root of
        Inl e \<Rightarrow> (Inl e, [])
      | Inr rel_path \<Rightarrow>
          (let cmd1 = git_cmd True rel_path
           in (case run env cmd1 repo_root of
                 Inl e \<Rightarrow> (Inl e, [Ran cmd1 repo_root])
               | Inr result1 \<Rightarrow>
                   (case read_result (pads_year env) result1 of
                      Inl e \<Rightarrow> (Inl e, [Ran cmd1 repo_root])
                    | Inr (Some r) \<Rightarrow> (Inr (Some r), [Ran cmd1 repo_root])
                    | Inr None \<Rightarrow>
                        (let cmd2 = git_cmd False rel_path
                         in (case run env cmd2 repo_root of
                               Inl e \<Rightarrow> (Inl e, [Ran cmd1 repo_root, Ran cmd2 repo_root])
                             | Inr result2 \<Rightarrow>
                                 (read_result (pads_year env) result2,
                                  [Ran cmd1 repo_root, Ran cmd2 repo_root])))))))"

definition get_git_info :: "env \<Rightarrow> string \<Rightarrow> string \<Rightarrow> (string \<times> string) \<times> event list" where
  "get_git_info env file_path repo_root =
     (case git_try env file_path repo_root of
        (Inl e, evs) \<Rightarrow> ((''N/A'', ''N/A''), evs @ [Warning file_path e])
      | (Inr (Some r), evs) \<Rightarrow> (r, evs)
      | (Inr None, evs) \<Rightarrow> ((''N/A'', ''N/A''), evs))"

section \<open>The catalog assembler\<close>

record lab =
  filename :: string
  description :: string
  technologies :: string
  last_merge_date :: string
  last_merge_author :: string

definition path_str :: "path \<Rightarrow> string" where
  \<comment> \<open>\<^verbatim>\<open>str(p)\<close> of a path with these parts\<close>
  "path_str p = join ''/'' p"

definition rglob :: "env \<Rightarrow> path \<Rightarrow> path list" where
  \<comment> \<open>\<^verbatim>\<open>instructions_path.rglob('*.md')\<close>: each file found, below \<open>instructions_path\<close>\<close>
  "rglob env instructions_path = map (\<lambda>rel. instructions_path @ rel) (listing env instructions_path)"

definition relative_to :: "path \<Rightarrow> path \<Rightarrow> error + path" where
  "relative_to p base =
     (if take (length base) p = base then Inr (drop (length base) p) else Inl ValueError)"

definition full_description :: "string \<Rightarrow> string \<Rightarrow> string" where
  \<comment> \<open>\<^verbatim>\<open>f"{title}. {description}" if title and description else (description or title or "N/A")\<close>\<close>
  "full_description title descr =
     (if title \<noteq> [] \<and> descr \<noteq> [] then title @ ''. '' @ descr
      else if descr \<noteq> [] then descr
      else if title \<noteq> [] then title
      else ''N/A'')"

definition process_file :: "env \<Rightarrow> string \<Rightarrow> path \<Rightarrow> path \<Rightarrow> (error + lab) \<times> event list" where
  \<comment> \<open>the body of the \<^verbatim>\<open>try\<close> in the loop of \<^verbatim>\<open>process_lab_files\<close>\<close>
  "process_file env repo_root instructions_path md_file =
     (case read_text env md_file of
        Inl e \<Rightarrow> (Inl e, [])
      | Inr content \<Rightarrow>
          (let (title, descr) = parse_frontmatter content;
               techs = extract_technologies (set_iter env) content;
               ((merge_date, merge_author), evs) = get_git_info env (path_str md_file) repo_root
           in (case relative_to md_file instructions_path of
                 Inl e \<Rightarrow> (Inl e, evs)
               | Inr rel_filename \<Rightarrow>
                   (Inr \<lparr>filename = path_str rel_filename,
                         description = full_description title descr,
                         technologies = techs,
                         last_merge_date = merge_date,
                         last_merge_author = merge_author\<rparr>, evs))))"

fun process_loop :: "env \<Rightarrow> string \<Rightarrow> path \<Rightarrow> lab list \<Rightarrow> path list \<Rightarrow> lab list \<times> event list" where
  "process_loop env repo_root instructions_path labs [] = (labs, [])"
| "process_loop env repo_root instructions_path labs (md_file # md_files) =
     (case process_file env repo_root instructions_path md_file of
        (Inr l, evs) \<Rightarrow>
          (let (labs', evs') = process_loop env repo_root instructions_path (labs @ [l]) md_files
           in (labs', Processing md_file # evs @ evs'))
      | (Inl e, evs) \<Rightarrow>
          (let (labs', evs') = process_loop env repo_root instructions_path labs md_files
           in (labs', Processing md_file # evs @ [ErrorProcessing md_file e] @ evs')))"

definition process_lab_files :: "env \<Rightarrow> string \<Rightarrow> path \<Rightarrow> lab list \<times> event list" where
  "process_lab_files env repo_root instructions_path =
     (let md_files = sort (rglob env instructions_path);
          (labs, evs) = process_loop env repo_root instructions_path [] md_files
      in (labs, Found (length md_files) instructions_path # evs))"

subsection \<open>The CSV writer\<close>

text \<open>
  \<^verbatim>\<open>csv.DictWriter\<close> with the default dialect: fields separated by a comma, a field that
  contains a comma, a double quote, a carriage return or a line feed enclosed in double
  quotes with its double quotes doubled, each row ended by carriage return and line feed.
\<close>

definition fieldnames :: "string list" where
  "fieldnames = [''filename'', ''description'', ''technologies'', ''last_merge_date'',
                 ''last_merge_author'']"

definition needs_quotes :: "string \<Rightarrow> bool" where
  "needs_quotes s = list_ex (\<lambda>c. c = CHR '','' \<or> c = dquote \<or> c = CHR 0x0D \<or> c = newline) s"

definition csv_field :: "string \<Rightarrow> string" where
  "csv_field s =
     (if needs_quotes s
      then [dquote] @ concat (map (\<lambda>c. if c = dquote then [dquote, dquote] else [c]) s) @ [dquote]
      else s)"

definition writerow :: "string list \<Rightarrow> string" where
  "writerow row = join '','' (map csv_field row) @ [CHR 0x0D, newline]"

definition lab_values :: "lab \<Rightarrow> string list" where
  \<comment> \<open>the values of the dictionary, in the order of \<open>fieldnames\<close>\<close>
  "lab_values l = [filename l, description l, technologies l, last_merge_date l, last_merge_author l]"

definition generate_csv :: "lab list \<Rightarrow> string" where
  \<comment> \<open>the text written to \<^verbatim>\<open>output_file\<close>\<close>
  "generate_csv labs = writerow fieldnames @ concat (map (\<lambda>l. writerow (lab_values l)) labs)"

definition main :: "env \<Rightarrow> string \<Rightarrow> path \<Rightarrow> string" where
  \<comment> \<open>the content of \<^verbatim>\<open>lab_catalog.csv\<close> after a run\<close>
  "main env repo_root instructions_path =
     generate_csv (fst (process_lab_files env repo_root instructions_path))"

section \<open>Notions used to state the properties\<close>

text \<open>
  \<open>readable\<close>: the file can be opened and decoded. \<open>record_of\<close>: the record the loop
  body appends for a file, if it appends one. \<open>errors_of\<close>: the files for which a run printed
  \<^verbatim>\<open>Error processing\<close>. \<open>under\<close>: the path lies below a directory.
\<close>

definition readable :: "env \<Rightarrow> path \<Rightarrow> bool" where
  "readable env p = (case read_text env p of Inr _ \<Rightarrow> True | Inl _ \<Rightarrow> False)"

definition record_of :: "env \<Rightarrow> string \<Rightarrow> path \<Rightarrow> path \<Rightarrow> lab option" where
  "record_of env repo_root instructions_path md_file =
     (case fst (process_file env repo_root instructions_path md_file) of
        Inr l \<Rightarrow> Some l | Inl _ \<Rightarrow> None)"

fun errors_of :: "event list \<Rightarrow> path list" where
  "errors_of [] = []"
| "errors_of (ErrorProcessing p e # evs) = p # errors_of evs"
| "errors_of (_ # evs) = errors_of evs"

definition under :: "path \<Rightarrow> path \<Rightarrow> bool" where
  "under base p = (take (length base) p = base)"

text \<open>
  What a query gave: \<open>no_result\<close> when git returned a non-zero code, printed nothing, or
  printed a line that does not split at \<^verbatim>\<open>|\<close> into exactly two parts; \<open>bad_date\<close> when the
  line has two parts and its first part does not start with a date that \<^verbatim>\<open>strptime\<close>
  accepts. \<open>iso_date\<close>: the shape \<^verbatim>\<open>YYYY-MM-DD\<close>.
\<close>

definition result_parts :: "int \<times> string \<Rightarrow> string list" where
  "result_parts r = split_on (CHR ''|'') (strip (snd r))"

definition no_result :: "int \<times> string \<Rightarrow> bool" where
  "no_result r = (fst r \<noteq> 0 \<or> strip (snd r) = [] \<or> length (result_parts r) \<noteq> 2)"

definition date_token :: "int \<times> string \<Rightarrow> string option" where
  "date_token r = (case split_ws (result_parts r ! 0) of [] \<Rightarrow> None | d # _ \<Rightarrow> Some d)"

definition bad_date :: "int \<times> string \<Rightarrow> bool" where
  "bad_date r =
     (\<not> no_result r \<and>
      (case date_token r of
         None \<Rightarrow> True
       | Some d \<Rightarrow> (case strptime d of Inl _ \<Rightarrow> True | Inr _ \<Rightarrow> False)))"

definition iso_date :: "string \<Rightarrow> bool" where
  "iso_date d =
     (length d = 10 \<and> list_all py_isdigit (take 4 d) \<and> d ! 4 = CHR ''-''
      \<and> list_all py_isdigit (slice d 5 7) \<and> d ! 7 = CHR ''-''
      \<and> list_all py_isdigit (slice d 8 10))"

definition obtained :: "env \<Rightarrow> string \<Rightarrow> string \<Rightarrow> (int \<times> string) option" where
  \<comment> \<open>the result obtained from either query: that of the query restricted to merges if it
      yields one, otherwise that of the unrestricted query if it yields one\<close>
  "obtained env rel_path repo_root =
     (case run env (git_cmd True rel_path) repo_root of
        Inl _ \<Rightarrow> None
      | Inr r1 \<Rightarrow>
          if \<not> no_result r1 then Some r1
          else (case run env (git_cmd False rel_path) repo_root of
                  Inl _ \<Rightarrow> None
                | Inr r2 \<Rightarrow> if \<not> no_result r2 then Some r2 else None))"

text \<open>Reading a field of a CSV file back: the quotes around it removed, doubled quotes halved.\<close>

fun undouble :: "string \<Rightarrow> string" where
  "undouble (a # b # cs) =
     (if a = dquote \<and> b = dquote then dquote # undouble cs else a # undouble (b # cs))"
| "undouble cs = cs"

definition csv_unquote :: "string \<Rightarrow> string" where
  "csv_unquote s = (if s \<noteq> [] \<and> hd s = dquote then undouble (butlast (tl s)) else s)"

text \<open>
  For the technology patterns: \<open>canon\<close> forgets case and whitespace; \<open>cw\<close> lists the words a
  pattern can match, up to \<open>canon\<close>, for the patterns without character classes other than
  \<^verbatim>\<open>\s\<close> (\<open>cw_ok\<close>). \<open>first_match\<close> is \<^verbatim>\<open>matches[0]\<close>, when there is a match, and \<open>label\<close> the
  string the loop adds to the set for a pattern.
\<close>

definition canon :: "string \<Rightarrow> string" where
  "canon s = filter (\<lambda>c. \<not> py_isspace c) (py_lower s)"

fun cw :: "regex \<Rightarrow> string list" where
  "cw Eps = [[]]"
| "cw (Lit c) = [canon [c]]"
| "cw Dot = []"
| "cw Space = [[]]"
| "cw Digit = []"
| "cw (OneOf cs) = []"
| "cw Bol = [[]]"
| "cw Eol = [[]]"
| "cw WordB = [[]]"
| "cw (Seq a b) = concat (map (\<lambda>x. map (\<lambda>y. x @ y) (cw b)) (cw a))"
| "cw (Alt a b) = cw a @ cw b"
| "cw (Star a) = [[]]"
| "cw (LazyStar a) = [[]]"
| "cw (Group n a) = cw a"

fun cw_ok :: "regex \<Rightarrow> bool" where
  "cw_ok Dot = False"
| "cw_ok Digit = False"
| "cw_ok (OneOf cs) = False"
| "cw_ok (Seq a b) = (cw_ok a \<and> cw_ok b)"
| "cw_ok (Alt a b) = (cw_ok a \<and> cw_ok b)"
| "cw_ok (Star a) = (cw_ok a \<and> list_all (\<lambda>w. w = []) (cw a))"
| "cw_ok (LazyStar a) = (cw_ok a \<and> list_all (\<lambda>w. w = []) (cw a))"
| "cw_ok (Group n a) = cw_ok a"
| "cw_ok _ = True"

definition ic :: flags where
  "ic = no_flags\<lparr>ignorecase := True\<rparr>"

definition first_match :: "string \<Rightarrow> regex \<Rightarrow> string option" where
  "first_match content p = (case re_findall ic p content of [] \<Rightarrow> None | m # _ \<Rightarrow> Some m)"

definition matches :: "string \<Rightarrow> regex \<Rightarrow> bool" where
  "matches content p = (first_match content p \<noteq> None)"

definition label :: "string \<Rightarrow> regex \<Rightarrow> string" where
  "label content p = (case first_match content p of None \<Rightarrow> [] | Some m \<Rightarrow> strip m)"

definition is_perm :: "(string list \<Rightarrow> string list) \<Rightarrow> bool" where
  \<comment> \<open>an iteration order: every element of the set once\<close>
  "is_perm iter = (\<forall>xs. mset (iter xs) = mset xs)"

section \<open>Example runs\<close>

text \<open>
  A directory \<^verbatim>\<open>labs\<close> with two markdown files, of which \<^verbatim>\<open>b.md\<close> cannot be read, on a
  machine without git.
\<close>

definition env0 :: env where
  "env0 = \<lparr>listing = (\<lambda>_. [[''b.md''], [''a.md'']]),
           read_text = (\<lambda>p. if p = [''labs'', ''a.md''] then Inr ''# A'' else Inl PermissionError),
           relpath = (\<lambda>p start. Inr p),
           run = (\<lambda>cmd cwd. Inl FileNotFoundError),
           set_iter = (\<lambda>xs. xs),
           pads_year = False\<rparr>"

text \<open>The same directory in a repository without merge commits: only the second query answers.\<close>

definition env1 :: env where
  "env1 = env0\<lparr>run := (\<lambda>cmd cwd. if List.member cmd ''--merges'' then Inr (0, [])
                               else Inr (0, ''2024-3-05 10:11:12 +0100|Ann Lee'' @ [newline]))\<rparr>"

text \<open>A record whose description and author need quoting.\<close>

definition lab_example :: lab where
  "lab_example = \<lparr>filename = ''a.md'',
                   description = ''Say '' @ [dquote] @ ''hi'' @ [dquote] @ '', ok'',
                   technologies = ''RAG'',
                   last_merge_date = ''2024-03-05'',
                   last_merge_author = ''Ann'' @ [newline] @ ''Lee''\<rparr>"

text \<open>
  Two readable files, listed in an order that is not the sorted one. Sorted as paths,
  \<^verbatim>\<open>a/y.md\<close> comes before \<^verbatim>\<open>a-b/x.md\<close>, since the directory \<^verbatim>\<open>a\<close> comes before \<^verbatim>\<open>a-b\<close>.
\<close>

definition env2 :: env where
  "env2 = env0\<lparr>listing := (\<lambda>_. [[''a-b'', ''x.md''], [''a'', ''y.md'']]),
               read_text := (\<lambda>p. if p = [''labs'', ''a-b'', ''x.md''] then Inr ''# X'' else Inr ''# Y'')\<rparr>"

text \<open>
  Two documents: one whose metadata block has nothing between the two \<^verbatim>\<open>---\<close> lines, followed by
  a heading; one whose title, in double quotes, contains an apostrophe.
\<close>

definition doc_empty_block :: string where
  "doc_empty_block = ''---'' @ [newline] @ ''---'' @ [newline] @ ''# Title'' @ [newline]"

definition doc_apostrophe :: string where
  "doc_apostrophe =
     ''---'' @ [newline] @
     ''title: '' @ [dquote] @ ''Azure'' @ [squote] @ ''s AI'' @ [dquote] @ [newline] @
     ''description: '' @ [squote] @ ''Learn'' @ [squote] @ [newline] @
     ''---'' @ [newline]"

section \<open>Properties of the matcher\<close>

text \<open>
  Every end position lies between the start position and the end of the string, and the
  results of a compound pattern are described by those of its parts.
\<close>

declare ends.simps(12,13) [simp del]

lemma ends_bounds:
  "(j, g) \<in> set (ends f r s i) \<Longrightarrow> i \<le> j \<and> (i \<le> length s \<longrightarrow> j \<le> length s)"
proof (induction f r s i arbitrary: j g rule: ends.induct)
  case (10 f a b s i)
  from 10(3) obtain k g1 g2 where a: "(k, g1) \<in> set (ends f a s i)" and b: "(j, g2) \<in> set (ends f b s k)"
    by auto
  from 10(1)[OF a] 10(2)[OF a refl b] show ?case by auto
next
  case (12 f a s i)
  from 12(3) have "(j = i) \<or> (\<exists>k g1 g2. (k, g1) \<in> set (ends f a s i) \<and> i < k \<and> k \<le> length s \<and> (j, g2) \<in> set (ends f (Star a) s k))"
    by (subst (asm) ends.simps) (auto split: if_splits)
  then show ?case
  proof
    assume "j = i" then show ?thesis by simp
  next
    assume "\<exists>k g1 g2. (k, g1) \<in> set (ends f a s i) \<and> i < k \<and> k \<le> length s \<and> (j, g2) \<in> set (ends f (Star a) s k)"
    then obtain k g1 g2 where a: "(k, g1) \<in> set (ends f a s i)" and lt: "i < k" "k \<le> length s"
      and b: "(j, g2) \<in> set (ends f (Star a) s k)" by blast
    from 12(2)[OF a refl _ b] lt show ?thesis by auto
  qed
next
  case (13 f a s i)
  from 13(3) have "(j = i) \<or> (\<exists>k g1 g2. (k, g1) \<in> set (ends f a s i) \<and> i < k \<and> k \<le> length s \<and> (j, g2) \<in> set (ends f (LazyStar a) s k))"
    by (subst (asm) ends.simps) (auto split: if_splits)
  then show ?case
  proof
    assume "j = i" then show ?thesis by simp
  next
    assume "\<exists>k g1 g2. (k, g1) \<in> set (ends f a s i) \<and> i < k \<and> k \<le> length s \<and> (j, g2) \<in> set (ends f (LazyStar a) s k)"
    then obtain k g1 g2 where a: "(k, g1) \<in> set (ends f a s i)" and lt: "i < k" "k \<le> length s"
      and b: "(j, g2) \<in> set (ends f (LazyStar a) s k)" by blast
    from 13(2)[OF a refl _ b] lt show ?thesis by auto
  qed
qed (auto split: if_splits)


lemma in_concat_mapI: "x \<in> set (F y) \<Longrightarrow> y \<in> set ys \<Longrightarrow> x \<in> set (concat (map F ys))"
  by auto

lemma in_ends_Seq:
  "(k, g) \<in> set (ends f (Seq a b) s i) \<longleftrightarrow>
     (\<exists>j g1 g2. (j, g1) \<in> set (ends f a s i) \<and> (k, g2) \<in> set (ends f b s j) \<and> g = g2 @ g1)"
proof
  assume "(k, g) \<in> set (ends f (Seq a b) s i)"
  then show "\<exists>j g1 g2. (j, g1) \<in> set (ends f a s i) \<and> (k, g2) \<in> set (ends f b s j) \<and> g = g2 @ g1"
    by (auto simp: later_def)
next
  assume "\<exists>j g1 g2. (j, g1) \<in> set (ends f a s i) \<and> (k, g2) \<in> set (ends f b s j) \<and> g = g2 @ g1"
  then obtain j g1 g2 where a: "(j, g1) \<in> set (ends f a s i)" and b: "(k, g2) \<in> set (ends f b s j)"
    and g: "g = g2 @ g1" by blast
  have "(k, g) \<in> (\<lambda>(k, g'). (k, later g1 g')) ` set (ends f b s j)"
    using b g by (force simp: later_def)
  then show "(k, g) \<in> set (ends f (Seq a b) s i)"
    using a by (simp del: set_concat add: set_concat) (rule bexI[of _ "(j, g1)"], simp_all)
qed

lemma in_ends_Alt:
  "(k, g) \<in> set (ends f (Alt a b) s i) \<longleftrightarrow>
     (k, g) \<in> set (ends f a s i) \<or> (k, g) \<in> set (ends f b s i)"
  by simp

lemma in_ends_Group:
  "(k, g) \<in> set (ends f (Group n a) s i) \<longleftrightarrow>
     (\<exists>g'. (k, g') \<in> set (ends f a s i) \<and> g = (n, (i, k)) # g')"
  by auto

lemma in_ends_Star:
  "(k, g) \<in> set (ends f (Star a) s i) \<longleftrightarrow>
     (k = i \<and> g = []) \<or>
     (\<exists>j g1 g2. (j, g1) \<in> set (ends f a s i) \<and> i < j \<and> j \<le> length s
        \<and> (k, g2) \<in> set (ends f (Star a) s j) \<and> g = g2 @ g1)"
proof
  assume "(k, g) \<in> set (ends f (Star a) s i)"
  then show "(k = i \<and> g = []) \<or>
     (\<exists>j g1 g2. (j, g1) \<in> set (ends f a s i) \<and> i < j \<and> j \<le> length s
        \<and> (k, g2) \<in> set (ends f (Star a) s j) \<and> g = g2 @ g1)"
    by (subst (asm) ends.simps) (auto simp: later_def split: if_splits)
next
  assume "(k = i \<and> g = []) \<or>
     (\<exists>j g1 g2. (j, g1) \<in> set (ends f a s i) \<and> i < j \<and> j \<le> length s
        \<and> (k, g2) \<in> set (ends f (Star a) s j) \<and> g = g2 @ g1)"
  then show "(k, g) \<in> set (ends f (Star a) s i)"
  proof
    assume "k = i \<and> g = []"
    then show ?thesis by (subst ends.simps) simp
  next
    assume "\<exists>j g1 g2. (j, g1) \<in> set (ends f a s i) \<and> i < j \<and> j \<le> length s
        \<and> (k, g2) \<in> set (ends f (Star a) s j) \<and> g = g2 @ g1"
    then obtain j g1 g2 where a: "(j, g1) \<in> set (ends f a s i)" and lt: "i < j" "j \<le> length s"
      and b: "(k, g2) \<in> set (ends f (Star a) s j)" and g: "g = g2 @ g1" by blast
    have "(k, g) \<in> set ((\<lambda>(j, g). if i < j \<and> j \<le> length s
                            then map (\<lambda>(k, g'). (k, later g g')) (ends f (Star a) s j) else []) (j, g1))"
      using b g lt by (force simp: later_def)
    from in_concat_mapI[of "(k, g)" "\<lambda>(j, g). if i < j \<and> j \<le> length s
                            then map (\<lambda>(k, g'). (k, later g g')) (ends f (Star a) s j) else []"
                          "(j, g1)" "ends f a s i", OF this a]
    show ?thesis
      by (subst ends.simps) simp
  qed
qed


lemma in_ends_LazyStar:
  "(k, g) \<in> set (ends f (LazyStar a) s i) \<longleftrightarrow>
     (k = i \<and> g = []) \<or>
     (\<exists>j g1 g2. (j, g1) \<in> set (ends f a s i) \<and> i < j \<and> j \<le> length s
        \<and> (k, g2) \<in> set (ends f (LazyStar a) s j) \<and> g = g2 @ g1)"
proof
  assume "(k, g) \<in> set (ends f (LazyStar a) s i)"
  then show "(k = i \<and> g = []) \<or>
     (\<exists>j g1 g2. (j, g1) \<in> set (ends f a s i) \<and> i < j \<and> j \<le> length s
        \<and> (k, g2) \<in> set (ends f (LazyStar a) s j) \<and> g = g2 @ g1)"
    by (subst (asm) ends.simps) (auto simp: later_def split: if_splits)
next
  assume "(k = i \<and> g = []) \<or>
     (\<exists>j g1 g2. (j, g1) \<in> set (ends f a s i) \<and> i < j \<and> j \<le> length s
        \<and> (k, g2) \<in> set (ends f (LazyStar a) s j) \<and> g = g2 @ g1)"
  then show "(k, g) \<in> set (ends f (LazyStar a) s i)"
  proof
    assume "k = i \<and> g = []"
    then show ?thesis by (subst ends.simps) simp
  next
    assume "\<exists>j g1 g2. (j, g1) \<in> set (ends f a s i) \<and> i < j \<and> j \<le> length s
        \<and> (k, g2) \<in> set (ends f (LazyStar a) s j) \<and> g = g2 @ g1"
    then obtain j g1 g2 where a: "(j, g1) \<in> set (ends f a s i)" and lt: "i < j" "j \<le> length s"
      and b: "(k, g2) \<in> set (ends f (LazyStar a) s j)" and g: "g = g2 @ g1" by blast
    have "(k, g) \<in> set ((\<lambda>(j, g). if i < j \<and> j \<le> length s
                            then map (\<lambda>(k, g'). (k, later g g')) (ends f (LazyStar a) s j) else []) (j, g1))"
      using b g lt by (force simp: later_def)
    from in_concat_mapI[of "(k, g)" "\<lambda>(j, g). if i < j \<and> j \<le> length s
                            then map (\<lambda>(k, g'). (k, later g g')) (ends f (LazyStar a) s j) else []"
                          "(j, g1)" "ends f a s i", OF this a]
    show ?thesis
      by (subst ends.simps) simp
  qed
qed

lemma in_ends_Eps: "(k, g) \<in> set (ends f Eps s i) \<longleftrightarrow> k = i \<and> g = []"
  by auto

lemma in_ends_Lit:
  "(k, g) \<in> set (ends f (Lit c) s i) \<longleftrightarrow> i < length s \<and> chr_eq f c (s ! i) \<and> k = Suc i \<and> g = []"
  by auto

lemma in_ends_Dot:
  "(k, g) \<in> set (ends f Dot s i) \<longleftrightarrow>
     i < length s \<and> (dotall f \<or> s ! i \<noteq> newline) \<and> k = Suc i \<and> g = []"
  by auto

lemma in_ends_Space:
  "(k, g) \<in> set (ends f Space s i) \<longleftrightarrow> i < length s \<and> py_isspace (s ! i) \<and> k = Suc i \<and> g = []"
  by auto

lemma in_ends_Digit:
  "(k, g) \<in> set (ends f Digit s i) \<longleftrightarrow> i < length s \<and> py_isdigit (s ! i) \<and> k = Suc i \<and> g = []"
  by auto

lemma in_ends_OneOf:
  "(k, g) \<in> set (ends f (OneOf cs) s i) \<longleftrightarrow>
     i < length s \<and> (\<exists>c\<in>set cs. chr_eq f c (s ! i)) \<and> k = Suc i \<and> g = []"
  by (auto simp: list_ex_iff)

lemma in_ends_Bol:
  "(k, g) \<in> set (ends f Bol s i) \<longleftrightarrow>
     (i = 0 \<or> (multiline f \<and> i \<le> length s \<and> s ! (i - 1) = newline)) \<and> k = i \<and> g = []"
  by auto

lemma in_ends_Eol:
  "(k, g) \<in> set (ends f Eol s i) \<longleftrightarrow>
     (i = length s \<or> (Suc i = length s \<and> s ! i = newline)
         \<or> (multiline f \<and> i < length s \<and> s ! i = newline)) \<and> k = i \<and> g = []"
  by auto

lemma in_ends_WordB:
  "(k, g) \<in> set (ends f WordB s i) \<longleftrightarrow> word_before s i \<noteq> word_at s i \<and> k = i \<and> g = []"
  by auto

lemmas in_ends = in_ends_Eps in_ends_Lit in_ends_Dot in_ends_Space in_ends_Digit in_ends_OneOf
  in_ends_Bol in_ends_Eol in_ends_WordB in_ends_Seq in_ends_Alt in_ends_Group

declare ends.simps [simp del]

section \<open>Dates\<close>

lemma code_char_of: "n < 256 \<Longrightarrow> code (char_of n) = n"
  by (simp add: code_def)

lemma code_lt: "code c < 256"
  by (simp add: code_def)

lemma code_inj: "code a = code b \<Longrightarrow> a = b"
  by (simp add: code_def)

lemma code_Char [simp]:
  "code (Char b0 b1 b2 b3 b4 b5 b6 b7) = of_char (Char b0 b1 b2 b3 b4 b5 b6 b7)"
  by (simp add: code_def)

lemma chr_eq_fixed: "code d < 65 \<Longrightarrow> chr_eq f d x \<longleftrightarrow> x = d"
  using code_lt[of x]
  by (auto simp: chr_eq_def py_lower_char_def Let_def code_char_of dest!: code_inj split: if_splits)

lemma slice_1: "i < length s \<Longrightarrow> slice s i (Suc i) = [s ! i]"
  by (simp add: slice_def take_Suc_conv_app_nth Cons_nth_drop_Suc[symmetric] take_Suc)

lemma slice_2: "Suc i < length s \<Longrightarrow> slice s i (Suc (Suc i)) = [s ! i, s ! Suc i]"
  by (simp add: slice_def Cons_nth_drop_Suc[symmetric] Suc_lessD)

lemma strip_digits: "list_all (\<lambda>c. \<not> py_isspace c) s \<Longrightarrow> strip s = s"
proof -
  assume a: "list_all (\<lambda>c. \<not> py_isspace c) s"
  then have "dropWhile py_isspace s = s" by (cases s) auto
  moreover from a have "dropWhile py_isspace (rev s) = rev s" by (cases "rev s") (auto simp: list_all_iff)
  ultimately show ?thesis by (simp add: strip_def lstrip_def rstrip_def)
qed

lemma digit_not_space: "py_isdigit c \<Longrightarrow> \<not> py_isspace c"
  by (auto simp: py_isdigit_def py_isspace_def Let_def)

lemma py_int_1: "py_isdigit a \<Longrightarrow> py_int [a] = code a - 48"
  by (simp add: py_int_def strip_digits digit_not_space)

lemma py_int_2: "py_isdigit a \<Longrightarrow> py_isdigit b \<Longrightarrow> py_int [a, b] = 10 * (code a - 48) + (code b - 48)"
  by (simp add: py_int_def strip_digits digit_not_space)

lemma py_int_sp: "py_isdigit b \<Longrightarrow> py_int [CHR '' '', b] = code b - 48"
  by (simp add: py_int_def strip_def lstrip_def rstrip_def py_isspace_def digit_not_space Let_def)
     (simp add: py_isdigit_def py_isspace_def Let_def)

lemma digit19_code: "c \<in> set digit19 \<Longrightarrow> 49 \<le> code c \<and> code c \<le> 57"
  by (auto simp: digit19_def)

lemma month_ends:
  assumes "(k, g) \<in> set (ends f month_re s i)"
  shows "g = [] \<and> i < k \<and> k \<le> length s \<and> 1 \<le> py_int (slice s i k) \<and> py_int (slice s i k) \<le> 12"
  using assms
  by (auto simp: month_re_def in_ends chr_eq_fixed
        slice_1 slice_2 py_int_1 py_int_2 py_isdigit_def Let_def digit19_def)


lemma day_ends:
  assumes "(k, g) \<in> set (ends f day_re s i)"
  shows "g = [] \<and> i < k \<and> k \<le> length s \<and> 1 \<le> py_int (slice s i k) \<and> py_int (slice s i k) \<le> 31"
  using assms
  by (auto simp: day_re_def in_ends chr_eq_fixed
        slice_1 slice_2 py_int_1 py_int_2 py_int_sp py_isdigit_def Let_def digit19_def)

lemma slice_4:
  "i + 4 \<le> length s \<Longrightarrow> slice s i (i + 4) = [s ! i, s ! (i + 1), s ! (i + 2), s ! (i + 3)]"
proof -
  assume a: "i + 4 \<le> length s"
  then have "drop i s = s ! i # s ! (i + 1) # s ! (i + 2) # s ! (i + 3) # drop (i + 4) s"
    by (simp add: Cons_nth_drop_Suc[symmetric] eval_nat_numeral)
  then show ?thesis by (simp add: slice_def)
qed

lemma py_int_4:
  "py_isdigit a \<Longrightarrow> py_isdigit b \<Longrightarrow> py_isdigit c \<Longrightarrow> py_isdigit d \<Longrightarrow>
   py_int [a, b, c, d] = 1000 * (code a - 48) + 100 * (code b - 48) + 10 * (code c - 48) + (code d - 48)"
  by (simp add: py_int_def strip_digits digit_not_space)

lemma year_ends:
  assumes "(k, g) \<in> set (ends f year_re s i)"
  shows "g = [] \<and> k = i + 4 \<and> k \<le> length s \<and> py_int (slice s i k) \<le> 9999
         \<and> (1000 \<le> py_int (slice s i k) \<longleftrightarrow> s ! i \<noteq> CHR ''0'')"
proof -
  from assms have d: "k = i + 4" "g = []" "i + 4 \<le> length s" "py_isdigit (s ! i)" "py_isdigit (s ! (i + 1))"
     "py_isdigit (s ! (i + 2))" "py_isdigit (s ! (i + 3))"
    by (auto simp: year_re_def in_ends eval_nat_numeral)
  have z: "s ! i = CHR ''0'' \<longleftrightarrow> code (s ! i) = 48"
    using code_inj[of "s ! i" "CHR ''0''"] by auto
  show ?thesis
    using d z by (auto simp: slice_4 py_int_4 py_isdigit_def Let_def)
qed

lemma date_ends:
  assumes "(k, g) \<in> set (ends f date_re s 0)"
  shows "\<exists>a b. g = [(3, (b, k)), (2, (5, a)), (1, (0, 4))] \<and> k \<le> length s
     \<and> py_int (slice s 0 4) \<le> 9999 \<and> (1000 \<le> py_int (slice s 0 4) \<longleftrightarrow> s ! 0 \<noteq> CHR ''0'')
     \<and> 1 \<le> py_int (slice s 5 a) \<and> py_int (slice s 5 a) \<le> 12
     \<and> 1 \<le> py_int (slice s b k) \<and> py_int (slice s b k) \<le> 31"
proof -
  from assms obtain j1 g1 j2 j3 g3 j4 g5 where
    y: "(j1, g1) \<in> set (ends f year_re s 0)" and l1: "j1 < length s" "j2 = Suc j1"
    and m: "(j3, g3) \<in> set (ends f month_re s j2)" and l2: "j3 < length s" "j4 = Suc j3"
    and d: "(k, g5) \<in> set (ends f day_re s j4)"
    and g: "g = ((3, (j4, k)) # g5) @ [] @ ((2, (j2, j3)) # g3) @ [] @ [(1, (0, j1))] @ g1"
    by (auto simp: date_re_def in_ends)
  from year_ends[OF y] month_ends[OF m] day_ends[OF d] l1 l2 g show ?thesis
    by auto
qed

declare decimal.simps [simp del]

lemma decimal_digits: "list_all py_isdigit (decimal n)"
proof (induction n rule: decimal.induct)
  case (1 n)
  show ?case
  proof (cases "n < 10")
    case True
    then show ?thesis by (subst decimal.simps) (simp add: py_isdigit_def code_char_of)
  next
    case False
    have "n mod 10 < 10" by simp
    then have "py_isdigit (char_of (48 + n mod 10))"
      by (simp add: py_isdigit_def code_char_of)
    with False 1 show ?thesis by (subst decimal.simps) simp
  qed
qed

lemma length_decimal_le: "n < 10 ^ Suc k \<Longrightarrow> length (decimal n) \<le> Suc k"
proof (induction k arbitrary: n)
  case 0
  then show ?case by (subst decimal.simps) simp
next
  case (Suc k)
  show ?case
  proof (cases "n < 10")
    case True
    then show ?thesis by (subst decimal.simps) simp
  next
    case False
    from Suc.prems have "n < 10 * 10 ^ Suc k" by simp
    then have "n div 10 < 10 ^ Suc k" by (simp add: less_mult_imp_div_less mult.commute)
    from Suc.IH[OF this] False show ?thesis by (subst decimal.simps) simp
  qed
qed

lemma length_decimal_ge: "10 ^ k \<le> n \<Longrightarrow> Suc k \<le> length (decimal n)"
proof (induction k arbitrary: n)
  case 0
  then show ?case by (subst decimal.simps) simp
next
  case (Suc k)
  from Suc.prems have p: "10 * 10 ^ k \<le> n" by simp
  have a: "(1::nat) \<le> 10 ^ k" by simp
  from p a have ten: "10 \<le> n" by linarith
  from p have "10 ^ k \<le> n div 10" by (simp add: less_eq_div_iff_mult_less_eq mult.commute)
  from Suc.IH[OF this] ten show ?case by (subst decimal.simps) simp
qed

lemma zfill_digits: "list_all py_isdigit s \<Longrightarrow> list_all py_isdigit (zfill w s)"
  by (simp add: zfill_def list_all_iff py_isdigit_def Let_def) auto

lemma length_zfill: "length s \<le> w \<Longrightarrow> length (zfill w s) = w"
  by (simp add: zfill_def)

lemma iso_dateI:
  assumes "length Y = 4" "length M = 2" "length D = 2"
    "list_all py_isdigit Y" "list_all py_isdigit M" "list_all py_isdigit D"
  shows "iso_date (Y @ ''-'' @ M @ ''-'' @ D)"
  using assms by (simp add: iso_date_def slice_def nth_append)

lemma strftime_iso:
  assumes "y \<le> 9999" "m \<le> 12" "d \<le> 31" "pad \<or> 1000 \<le> y"
  shows "iso_date (strftime pad (y, m, d))"
proof -
  have ly: "length (decimal y) \<le> 4" using length_decimal_le[of y 3] assms(1) by simp
  have lm: "length (decimal m) \<le> 2" using length_decimal_le[of m 1] assms(2) by simp
  have ld: "length (decimal d) \<le> 2" using length_decimal_le[of d 1] assms(3) by simp
  have Y: "length (if pad then zfill 4 (decimal y) else decimal y) = 4"
  proof (cases pad)
    case True
    then show ?thesis using ly by (simp add: length_zfill)
  next
    case False
    with assms(4) have "1000 \<le> y" by simp
    then have "4 \<le> length (decimal y)" using length_decimal_ge[of 3 y] by simp
    with ly False show ?thesis by simp
  qed
  have Yd: "list_all py_isdigit (if pad then zfill 4 (decimal y) else decimal y)"
    by (simp add: zfill_digits decimal_digits)
  have "iso_date ((if pad then zfill 4 (decimal y) else decimal y) @ ''-'' @ zfill 2 (decimal m)
           @ ''-'' @ zfill 2 (decimal d))"
    by (rule iso_dateI) (simp_all only: Y Yd length_zfill lm ld zfill_digits decimal_digits)
  then show ?thesis by (simp add: strftime_def)
qed

lemma strptime_range:
  assumes "strptime t = Inr (y, m, d)"
  shows "1 \<le> y \<and> y \<le> 9999 \<and> 1 \<le> m \<and> m \<le> 12 \<and> 1 \<le> d \<and> d \<le> 31
         \<and> (1000 \<le> y \<longleftrightarrow> t ! 0 \<noteq> CHR ''0'')"
proof -
  let ?f = "no_flags\<lparr>ignorecase := True\<rparr>"
  from assms obtain mm where mm: "re_match ?f date_re t = Some mm"
    by (cases "re_match ?f date_re t") (simp_all add: strptime_def)
  then obtain j g rest where e: "ends ?f date_re t 0 = (j, g) # rest"
      and mj: "m_end mm = j" "m_caps mm = g"
    by (cases "ends ?f date_re t 0") (auto simp: re_match_def)
  from e have "(j, g) \<in> set (ends ?f date_re t 0)" by simp
  from date_ends[OF this] obtain a b where
    g: "g = [(3, (b, j)), (2, (5, a)), (1, (0, 4))]" and
    r: "py_int (slice t 0 4) \<le> 9999" "1000 \<le> py_int (slice t 0 4) \<longleftrightarrow> t ! 0 \<noteq> CHR ''0''"
       "1 \<le> py_int (slice t 5 a)" "py_int (slice t 5 a) \<le> 12"
       "1 \<le> py_int (slice t b j)" "py_int (slice t b j) \<le> 31"
    by blast
  have g1: "group t mm 1 = slice t 0 4" and g2: "group t mm 2 = slice t 5 a"
    and g3: "group t mm 3 = slice t b j"
    by (simp_all add: group_def mj g)
  from assms mm have "y = py_int (group t mm 1) \<and> m = py_int (group t mm 2)
      \<and> d = py_int (group t mm 3) \<and> 1 \<le> y"
    by (simp add: strptime_def Let_def split: if_splits)
  with r g1 g2 g3 show ?thesis by simp
qed

lemma read_result_iso:
  assumes "read_result pad r = Inr (Some (d, a))"
  shows "\<exists>t. date_token r = Some t \<and> (pad \<or> t ! 0 \<noteq> CHR ''0'' \<longrightarrow> iso_date d)"
proof -
  from assms obtain t date_obj where
    t: "date_token r = Some t" "strptime t = Inr date_obj" "d = strftime pad date_obj"
    by (cases r)
       (auto simp: no_result_def read_result_def result_parts_def date_token_def Let_def
           split: list.splits sum.splits if_splits)
  obtain y m dd where o: "date_obj = (y, m, dd)" by (cases date_obj) auto
  from strptime_range[OF t(2)[unfolded o]] have
    "y \<le> 9999" "m \<le> 12" "dd \<le> 31" "1000 \<le> y \<longleftrightarrow> t ! 0 \<noteq> CHR ''0''" by simp_all
  then have "pad \<or> t ! 0 \<noteq> CHR ''0'' \<Longrightarrow> iso_date (strftime pad (y, m, dd))"
    using strftime_iso[of y m dd pad] by blast
  with t o show ?thesis by blast
qed

section \<open>Properties of the provenance lookup\<close>

lemma read_result_no_result: "no_result r \<Longrightarrow> read_result pad r = Inr None"
  by (cases r) (auto simp: no_result_def read_result_def result_parts_def Let_def)

lemma read_result_no_result_iff: "read_result pad r = Inr None \<longleftrightarrow> no_result r"
  by (cases r)
     (auto simp: no_result_def read_result_def result_parts_def Let_def
           split: list.splits sum.splits)

lemma read_result_bad_date: "bad_date r \<Longrightarrow> \<exists>e. read_result pad r = Inl e"
  by (cases r)
     (auto simp: bad_date_def no_result_def read_result_def result_parts_def date_token_def Let_def
           split: list.splits sum.splits)

lemma read_result_good:
  "\<not> no_result r \<Longrightarrow> \<not> bad_date r \<Longrightarrow>
   \<exists>d date_obj. date_token r = Some d \<and> strptime d = Inr date_obj
      \<and> read_result pad r = Inr (Some (strftime pad date_obj, result_parts r ! 1))"
  by (cases r)
     (auto simp: bad_date_def no_result_def read_result_def result_parts_def date_token_def Let_def
           split: list.splits sum.splits)

lemma read_result_Some:
  "read_result pad r = Inr (Some (d, a)) \<Longrightarrow>
   \<exists>t date_obj. \<not> no_result r \<and> date_token r = Some t \<and> strptime t = Inr date_obj
      \<and> d = strftime pad date_obj \<and> a = result_parts r ! 1"
  by (cases r)
     (auto simp: no_result_def read_result_def result_parts_def date_token_def Let_def
           split: list.splits sum.splits if_splits)

text \<open>
  Claim C6. The provenance lookup returns a pair in every case and never passes an exception
  on: when the relative path cannot be computed, when running git raises (no git on the
  machine, bad working directory), when both queries give a non-zero return code, no output
  or a line that is not two fields, and when the date of the line that is used does not parse,
  the pair is exactly \<^verbatim>\<open>("N/A", "N/A")\<close>; an exception raised inside is reported as a warning.
\<close>

theorem lookup_never_raises:
  "(\<forall>e. relpath env file_path repo_root = Inl e \<longrightarrow>
        fst (get_git_info env file_path repo_root) = (''N/A'', ''N/A''))
   \<and> (\<forall>rel_path. relpath env file_path repo_root = Inr rel_path \<longrightarrow>
        (\<forall>e. run env (git_cmd True rel_path) repo_root = Inl e \<longrightarrow>
            fst (get_git_info env file_path repo_root) = (''N/A'', ''N/A''))
      \<and> (\<forall>r1. run env (git_cmd True rel_path) repo_root = Inr r1 \<longrightarrow>
            (bad_date r1 \<longrightarrow> fst (get_git_info env file_path repo_root) = (''N/A'', ''N/A''))
          \<and> (no_result r1 \<longrightarrow>
               (\<forall>e. run env (git_cmd False rel_path) repo_root = Inl e \<longrightarrow>
                   fst (get_git_info env file_path repo_root) = (''N/A'', ''N/A''))
             \<and> (\<forall>r2. run env (git_cmd False rel_path) repo_root = Inr r2 \<longrightarrow>
                   no_result r2 \<or> bad_date r2 \<longrightarrow>
                   fst (get_git_info env file_path repo_root) = (''N/A'', ''N/A'')))))
   \<and> (\<forall>e. fst (git_try env file_path repo_root) = Inl e \<longrightarrow>
        fst (get_git_info env file_path repo_root) = (''N/A'', ''N/A'')
        \<and> Warning file_path e \<in> set (snd (get_git_info env file_path repo_root)))"
proof -
  have a: "\<And>e. relpath env file_path repo_root = Inl e \<Longrightarrow>
        fst (get_git_info env file_path repo_root) = (''N/A'', ''N/A'')"
    by (simp add: get_git_info_def git_try_def)
  have b: "\<And>rel_path e. relpath env file_path repo_root = Inr rel_path \<Longrightarrow>
        run env (git_cmd True rel_path) repo_root = Inl e \<Longrightarrow>
        fst (get_git_info env file_path repo_root) = (''N/A'', ''N/A'')"
    by (simp add: get_git_info_def git_try_def Let_def)
  have c: "\<And>rel_path r1. relpath env file_path repo_root = Inr rel_path \<Longrightarrow>
        run env (git_cmd True rel_path) repo_root = Inr r1 \<Longrightarrow> bad_date r1 \<Longrightarrow>
        fst (get_git_info env file_path repo_root) = (''N/A'', ''N/A'')"
    using read_result_bad_date[of _ "pads_year env"]
    by (fastforce simp: get_git_info_def git_try_def Let_def)
  have d: "\<And>rel_path r1 e. relpath env file_path repo_root = Inr rel_path \<Longrightarrow>
        run env (git_cmd True rel_path) repo_root = Inr r1 \<Longrightarrow> no_result r1 \<Longrightarrow>
        run env (git_cmd False rel_path) repo_root = Inl e \<Longrightarrow>
        fst (get_git_info env file_path repo_root) = (''N/A'', ''N/A'')"
    by (simp add: get_git_info_def git_try_def Let_def read_result_no_result)
  have e: "\<And>rel_path r1 r2. relpath env file_path repo_root = Inr rel_path \<Longrightarrow>
        run env (git_cmd True rel_path) repo_root = Inr r1 \<Longrightarrow> no_result r1 \<Longrightarrow>
        run env (git_cmd False rel_path) repo_root = Inr r2 \<Longrightarrow> no_result r2 \<or> bad_date r2 \<Longrightarrow>
        fst (get_git_info env file_path repo_root) = (''N/A'', ''N/A'')"
    using read_result_bad_date[of _ "pads_year env"]
    by (fastforce simp: get_git_info_def git_try_def Let_def read_result_no_result)
  have f: "\<And>e. fst (git_try env file_path repo_root) = Inl e \<Longrightarrow>
        fst (get_git_info env file_path repo_root) = (''N/A'', ''N/A'')
        \<and> Warning file_path e \<in> set (snd (get_git_info env file_path repo_root))"
    by (cases "git_try env file_path repo_root") (simp add: get_git_info_def)
  show ?thesis using a b c d e f by blast
qed

theorem lookup_never_raises_witness:
  "fst (get_git_info env0 ''labs/a.md'' ''/repo'') = (''N/A'', ''N/A'')"
  using lookup_never_raises[of env0 "''labs/a.md''" "''/repo''"]
  by (simp add: env0_def)


text \<open>
  On a machine without git the first query raises, and the unrestricted query is never made:
  the lookup does not repeat the query in that case.
\<close>

theorem repeat_after_raise_counterexample:
  "run env0 (git_cmd True ''labs/a.md'') ''/repo'' = Inl FileNotFoundError
   \<and> Ran (git_cmd False ''labs/a.md'') ''/repo'' \<notin> set (snd (get_git_info env0 ''labs/a.md'' ''/repo''))"
  by (simp add: env0_def get_git_info_def git_try_def git_cmd_def)


lemma git_cmd_neq: "git_cmd True rel \<noteq> git_cmd False rel"
  by (simp add: git_cmd_def)


text \<open>
  Claim C7, as the code has it. When running git for the query restricted to merges raises,
  the lookup stops there with the sentinel pair and a warning: the second query is not made.
  When that query returns, the unrestricted query is made exactly if the first one gave no
  result (non-zero return code, empty output, or a line that does not split into two fields).
  The first query that gives a result decides: if its date parses, the pair is the date
  written by \<^verbatim>\<open>strftime\<close> and the author, and the date has the shape \<^verbatim>\<open>YYYY-MM-DD\<close>
  (whenever the year is at least 1000 or the C library pads the year); if its date does not
  parse, the whole call gives the sentinel pair.
\<close>

theorem fallback_and_date:
  "(\<forall>rel_path. relpath env file_path repo_root = Inr rel_path \<longrightarrow>
      (\<forall>e. run env (git_cmd True rel_path) repo_root = Inl e \<longrightarrow>
          snd (get_git_info env file_path repo_root)
            = [Ran (git_cmd True rel_path) repo_root, Warning file_path e]
          \<and> fst (get_git_info env file_path repo_root) = (''N/A'', ''N/A''))
    \<and> (\<forall>r1. run env (git_cmd True rel_path) repo_root = Inr r1 \<longrightarrow>
          (Ran (git_cmd False rel_path) repo_root \<in> set (snd (get_git_info env file_path repo_root))
             \<longleftrightarrow> no_result r1))
    \<and> (\<forall>r. obtained env rel_path repo_root = Some r \<longrightarrow>
          (bad_date r \<longrightarrow> fst (get_git_info env file_path repo_root) = (''N/A'', ''N/A''))
        \<and> (\<not> bad_date r \<longrightarrow>
             (\<exists>t date_obj. date_token r = Some t \<and> strptime t = Inr date_obj
                \<and> fst (get_git_info env file_path repo_root)
                    = (strftime (pads_year env) date_obj, result_parts r ! 1)
                \<and> (pads_year env \<or> t ! 0 \<noteq> CHR ''0'' \<longrightarrow>
                     iso_date (fst (fst (get_git_info env file_path repo_root))))))))"
proof (intro allI impI conjI)
  fix rel_path e
  assume "relpath env file_path repo_root = Inr rel_path" "run env (git_cmd True rel_path) repo_root = Inl e"
  then show "snd (get_git_info env file_path repo_root)
            = [Ran (git_cmd True rel_path) repo_root, Warning file_path e]"
    and "fst (get_git_info env file_path repo_root) = (''N/A'', ''N/A'')"
    by (simp_all add: get_git_info_def git_try_def Let_def)
next
  fix rel_path r1
  assume a: "relpath env file_path repo_root = Inr rel_path" "run env (git_cmd True rel_path) repo_root = Inr r1"
  show "(Ran (git_cmd False rel_path) repo_root \<in> set (snd (get_git_info env file_path repo_root)))
             = no_result r1"
  proof (cases "no_result r1")
    case True
    then show ?thesis using a
      by (auto simp: get_git_info_def git_try_def Let_def read_result_no_result
               split: sum.splits option.splits)
  next
    case False
    then have "read_result (pads_year env) r1 \<noteq> Inr None"
      using read_result_no_result_iff by blast
    then show ?thesis using a False git_cmd_neq[of rel_path]
      by (auto simp: get_git_info_def git_try_def Let_def split: sum.splits option.splits)
  qed
next
  fix rel_path r
  assume a: "relpath env file_path repo_root = Inr rel_path" "obtained env rel_path repo_root = Some r"
    and b: "bad_date r"
  from b obtain e where e: "read_result (pads_year env) r = Inl e"
    using read_result_bad_date by blast
  from a e show "fst (get_git_info env file_path repo_root) = (''N/A'', ''N/A'')"
    by (auto simp: obtained_def get_git_info_def git_try_def Let_def read_result_no_result
             split: sum.splits if_splits)
next
  fix rel_path r
  assume a: "relpath env file_path repo_root = Inr rel_path" "obtained env rel_path repo_root = Some r"
    and b: "\<not> bad_date r"
  from a have nr: "\<not> no_result r"
    by (auto simp: obtained_def split: sum.splits if_splits)
  from read_result_good[OF nr b, of "pads_year env"] obtain t date_obj where
    t: "date_token r = Some t" "strptime t = Inr date_obj"
       "read_result (pads_year env) r = Inr (Some (strftime (pads_year env) date_obj, result_parts r ! 1))"
    by blast
  from a t(3) have res: "fst (get_git_info env file_path repo_root)
       = (strftime (pads_year env) date_obj, result_parts r ! 1)"
    by (auto simp: obtained_def get_git_info_def git_try_def Let_def read_result_no_result
             split: sum.splits if_splits)
  from read_result_iso[OF t(3)] t(1) have
    "pads_year env \<or> t ! 0 \<noteq> CHR ''0'' \<longrightarrow> iso_date (strftime (pads_year env) date_obj)"
    by simp
  with t res have "date_token r = Some t \<and> strptime t = Inr date_obj
                \<and> fst (get_git_info env file_path repo_root)
                    = (strftime (pads_year env) date_obj, result_parts r ! 1)
                \<and> (pads_year env \<or> t ! 0 \<noteq> CHR ''0'' \<longrightarrow>
                     iso_date (fst (fst (get_git_info env file_path repo_root))))"
    by simp
  then show "\<exists>t date_obj. date_token r = Some t \<and> strptime t = Inr date_obj
                \<and> fst (get_git_info env file_path repo_root)
                    = (strftime (pads_year env) date_obj, result_parts r ! 1)
                \<and> (pads_year env \<or> t ! 0 \<noteq> CHR ''0'' \<longrightarrow>
                     iso_date (fst (fst (get_git_info env file_path repo_root))))"
    by blast
qed


lemma env1_value:
  "get_git_info env1 ''labs/a.md'' ''/repo''
     = ((''2024-03-05'', ''Ann Lee''),
        [Ran (git_cmd True ''labs/a.md'') ''/repo'', Ran (git_cmd False ''labs/a.md'') ''/repo''])"
  by code_simp

theorem fallback_and_date_witness:
  "Ran (git_cmd False ''labs/a.md'') ''/repo'' \<in> set (snd (get_git_info env1 ''labs/a.md'' ''/repo''))
   \<and> fst (get_git_info env1 ''labs/a.md'' ''/repo'') = (''2024-03-05'', ''Ann Lee'')
   \<and> iso_date (fst (fst (get_git_info env1 ''labs/a.md'' ''/repo'')))"
proof -
  let ?line = "''2024-3-05 10:11:12 +0100|Ann Lee'' @ [newline]"
  have h1: "relpath env1 ''labs/a.md'' ''/repo'' = Inr ''labs/a.md''"
    by (simp add: env1_def env0_def)
  have h2: "run env1 (git_cmd True ''labs/a.md'') ''/repo'' = Inr (0, [])"
    by code_simp
  have h3: "no_result (0, [])"
    by code_simp
  have h4: "obtained env1 ''labs/a.md'' ''/repo'' = Some (0, ?line)"
    by code_simp
  have h5: "\<not> bad_date (0, ?line)"
    by code_simp
  have h6: "date_token (0, ?line) = Some ''2024-3-05''"
    by code_simp
  note th = fallback_and_date[of env1 "''labs/a.md''" "''/repo''", THEN spec, THEN mp, OF h1]
  have a: "Ran (git_cmd False ''labs/a.md'') ''/repo'' \<in> set (snd (get_git_info env1 ''labs/a.md'' ''/repo''))"
    using th[THEN conjunct2, THEN conjunct1, THEN spec, THEN mp, OF h2] h3 by simp
  from th[THEN conjunct2, THEN conjunct2, THEN spec, THEN mp, OF h4, THEN conjunct2, THEN mp, OF h5]
  obtain t where
    t: "date_token (0, ?line) = Some t"
       "pads_year env1 \<or> t ! 0 \<noteq> CHR ''0'' \<longrightarrow> iso_date (fst (fst (get_git_info env1 ''labs/a.md'' ''/repo'')))"
    by blast
  from t(1) h6 have "t ! 0 \<noteq> CHR ''0''" by simp
  with t(2) have b: "iso_date (fst (fst (get_git_info env1 ''labs/a.md'' ''/repo'')))" by simp
  from a b env1_value show ?thesis by simp
qed

section \<open>Properties of the assembler loop\<close>

lemma errors_of_append: "errors_of (xs @ ys) = errors_of xs @ errors_of ys"
  by (induction xs rule: errors_of.induct) auto

lemma git_try_no_errors: "errors_of (snd (git_try env fp root)) = []"
  by (auto simp: git_try_def Let_def split: sum.splits option.splits)

lemma get_git_info_no_errors: "errors_of (snd (get_git_info env fp root)) = []"
  using git_try_no_errors[of env fp root]
  by (auto simp: get_git_info_def errors_of_append split: prod.splits sum.splits option.splits)

lemma process_file_no_errors: "errors_of (snd (process_file env root base p)) = []"
  using get_git_info_no_errors[of env "path_str p" root]
  by (auto simp: process_file_def Let_def split: prod.splits sum.splits)

lemma process_file_unreadable:
  "\<not> readable env p \<Longrightarrow> \<exists>e. process_file env root base p = (Inl e, [])"
  by (auto simp: readable_def process_file_def split: sum.splits)

lemma process_file_readable:
  assumes "readable env p" "under base p"
  shows "\<exists>l evs. process_file env root base p = (Inr l, evs) \<and> filename l = path_str (drop (length base) p)"
  using assms
  by (auto simp: readable_def under_def process_file_def relative_to_def Let_def split: sum.splits prod.splits)

lemma process_loop_Cons_fst:
  "fst (process_loop env root base labs (p # fs)) =
     (case fst (process_file env root base p) of
        Inr l \<Rightarrow> fst (process_loop env root base (labs @ [l]) fs)
      | Inl e \<Rightarrow> fst (process_loop env root base labs fs))"
  by (auto split: prod.splits sum.splits)

lemma process_loop_Cons_snd:
  "snd (process_loop env root base labs (p # fs)) =
     (case process_file env root base p of
        (Inr l, evs) \<Rightarrow> Processing p # evs @ snd (process_loop env root base (labs @ [l]) fs)
      | (Inl e, evs) \<Rightarrow> Processing p # evs @ [ErrorProcessing p e] @ snd (process_loop env root base labs fs))"
  by (auto split: prod.splits sum.splits)

lemma process_loop_fst:
  "fst (process_loop env root base labs fs) = labs @ List.map_filter (record_of env root base) fs"
proof (induction fs arbitrary: labs)
  case Nil
  then show ?case by (simp add: map_filter_simps)
next
  case (Cons p fs)
  show ?case
    unfolding process_loop_Cons_fst
    by (cases "fst (process_file env root base p)") (simp_all add: Cons.IH record_of_def map_filter_simps)
qed

lemma process_loop_errors:
  "\<forall>p\<in>set fs. under base p \<Longrightarrow>
   errors_of (snd (process_loop env root base labs fs)) = filter (\<lambda>p. \<not> readable env p) fs"
proof (induction fs arbitrary: labs)
  case Nil
  then show ?case by simp
next
  case (Cons p fs)
  have IH: "\<And>labs. errors_of (snd (process_loop env root base labs fs)) = filter (\<lambda>p. \<not> readable env p) fs"
    using Cons by simp
  show ?case
  proof (cases "readable env p")
    case True
    with Cons.prems obtain l evs where pf: "process_file env root base p = (Inr l, evs)"
      using process_file_readable[of env p base root] by auto
    have "errors_of evs = []" using process_file_no_errors[of env root base p] pf by simp
    then show ?thesis using True pf IH
      unfolding process_loop_Cons_snd by (simp add: errors_of_append)
  next
    case False
    then obtain e where pf: "process_file env root base p = (Inl e, [])"
      using process_file_unreadable by blast
    then show ?thesis using False IH
      unfolding process_loop_Cons_snd by (simp add: errors_of_append)
  qed
qed

lemma record_of_readable:
  "under base p \<Longrightarrow> readable env p \<Longrightarrow>
   \<exists>l. record_of env root base p = Some l \<and> filename l = path_str (drop (length base) p)"
  using process_file_readable[of env p base root] by (auto simp: record_of_def)

lemma record_of_unreadable: "\<not> readable env p \<Longrightarrow> record_of env root base p = None"
  using process_file_unreadable[of env p root base] by (auto simp: record_of_def)

lemma map_filter_filenames:
  "\<forall>p\<in>set fs. under base p \<Longrightarrow>
   map filename (List.map_filter (record_of env root base) fs)
     = map (\<lambda>p. path_str (drop (length base) p)) (filter (readable env) fs)"
proof (induction fs)
  case Nil
  then show ?case by (simp add: map_filter_simps)
next
  case (Cons p fs)
  then show ?case
    using record_of_readable[of base p env root] record_of_unreadable[of env p root base]
    by (cases "readable env p") (auto simp: map_filter_simps)
qed

lemma rglob_under: "p \<in> set (sort (rglob env base)) \<Longrightarrow> under base p"
  by (auto simp: rglob_def under_def)

lemma process_lab_files_fst:
  "fst (process_lab_files env root base) = List.map_filter (record_of env root base) (sort (rglob env base))"
  by (simp add: process_lab_files_def Let_def case_prod_unfold process_loop_fst)

lemma process_lab_files_errors:
  "errors_of (snd (process_lab_files env root base)) = filter (\<lambda>p. \<not> readable env p) (sort (rglob env base))"
proof -
  have "\<forall>p\<in>set (sort (rglob env base)). under base p"
    using rglob_under by blast
  then show ?thesis
    by (simp add: process_lab_files_def Let_def case_prod_unfold process_loop_errors)
qed

text \<open>
  Claim C1. In every run, each enumerated markdown file that is read successfully gives
  exactly one record, whatever the extraction and the provenance lookup do; each file whose
  read fails gives no record and one \<^verbatim>\<open>Error processing\<close> line; and the number of records
  plus the number of skipped files is the number of enumerated files. The records are those
  of the readable files, in the order of the sorted enumeration.
\<close>

theorem rows_plus_skipped:
  "map filename (fst (process_lab_files env repo_root instructions_path))
     = map (\<lambda>p. path_str (drop (length instructions_path) p))
           (filter (readable env) (sort (rglob env instructions_path)))
   \<and> errors_of (snd (process_lab_files env repo_root instructions_path))
     = filter (\<lambda>p. \<not> readable env p) (sort (rglob env instructions_path))
   \<and> length (fst (process_lab_files env repo_root instructions_path))
       + length (errors_of (snd (process_lab_files env repo_root instructions_path)))
     = length (rglob env instructions_path)"
proof -
  let ?fs = "sort (rglob env instructions_path)"
  have u: "\<forall>p\<in>set ?fs. under instructions_path p" using rglob_under by blast
  have a: "map filename (fst (process_lab_files env repo_root instructions_path))
     = map (\<lambda>p. path_str (drop (length instructions_path) p)) (filter (readable env) ?fs)"
    using map_filter_filenames[OF u] by (simp add: process_lab_files_fst)
  have b: "errors_of (snd (process_lab_files env repo_root instructions_path))
     = filter (\<lambda>p. \<not> readable env p) ?fs"
    by (rule process_lab_files_errors)
  have "length (fst (process_lab_files env repo_root instructions_path)) = length (filter (readable env) ?fs)"
    using arg_cong[OF a, of length] by simp
  moreover have "length (filter (readable env) ?fs) + length (filter (\<lambda>p. \<not> readable env p) ?fs) = length ?fs"
    using sum_length_filter_compl[of "readable env" ?fs] by simp
  ultimately show ?thesis using a b by simp
qed

lemma env0_sorted: "sort (rglob env0 [''labs'']) = [[''labs'', ''a.md''], [''labs'', ''b.md'']]"
  by code_simp

theorem rows_plus_skipped_witness:
  "map filename (fst (process_lab_files env0 ''/repo'' [''labs''])) = [''a.md'']
   \<and> errors_of (snd (process_lab_files env0 ''/repo'' [''labs''])) = [[''labs'', ''b.md'']]
   \<and> length (fst (process_lab_files env0 ''/repo'' [''labs'']))
       + length (errors_of (snd (process_lab_files env0 ''/repo'' [''labs'']))) = 2"
proof -
  have r: "readable env0 [''labs'', ''a.md'']" "\<not> readable env0 [''labs'', ''b.md'']"
    by (simp_all add: readable_def env0_def)
  have n: "length (rglob env0 [''labs'']) = 2"
    by (simp add: rglob_def env0_def)
  have "map filename (fst (process_lab_files env0 ''/repo'' [''labs''])) = [''a.md'']"
    using rows_plus_skipped[of env0 "''/repo''" "[''labs'']"]
    by (simp add: env0_sorted r path_str_def)
  moreover have "errors_of (snd (process_lab_files env0 ''/repo'' [''labs''])) = [[''labs'', ''b.md'']]"
    using rows_plus_skipped[of env0 "''/repo''" "[''labs'']"]
    by (simp add: env0_sorted r)
  moreover have "length (fst (process_lab_files env0 ''/repo'' [''labs'']))
       + length (errors_of (snd (process_lab_files env0 ''/repo'' [''labs'']))) = 2"
    using conjunct2[OF conjunct2[OF rows_plus_skipped[of env0 "''/repo''" "[''labs'']"]]]
    by (simp only: n)
  ultimately show ?thesis by blast
qed

section \<open>Properties of the CSV file\<close>

text \<open>
  The header the script writes names the last two columns \<^verbatim>\<open>last_merge_date\<close> and
  \<^verbatim>\<open>last_merge_author\<close>; the file does not begin with a header that names them
  \<^verbatim>\<open>last_change_date\<close> and \<^verbatim>\<open>last_change_author\<close>.
\<close>

theorem header_counterexample:
  "\<not> startswith (generate_csv [])
       ''filename,description,technologies,last_change_date,last_change_author''"
  by code_simp

lemma undouble_escape:
  "undouble (concat (map (\<lambda>c. if c = dquote then [dquote, dquote] else [c]) s)) = s"
proof (induction s)
  case Nil
  then show ?case by simp
next
  case (Cons c s)
  show ?case
  proof (cases "c = dquote")
    case True
    with Cons show ?thesis by simp
  next
    case False
    let ?rest = "concat (map (\<lambda>c. if c = dquote then [dquote, dquote] else [c]) s)"
    show ?thesis
    proof (cases ?rest)
      case Nil
      with Cons False show ?thesis by simp
    next
      case (Cons b cs)
      with Cons.IH False show ?thesis by simp
    qed
  qed
qed

lemma csv_unquote_field: "csv_unquote (csv_field s) = s"
proof (cases "needs_quotes s")
  case True
  then show ?thesis by (simp add: csv_unquote_def csv_field_def undouble_escape butlast_append)
next
  case False
  then have "s = [] \<or> hd s \<noteq> dquote"
    by (cases s) (auto simp: needs_quotes_def)
  with False show ?thesis by (auto simp: csv_unquote_def csv_field_def)
qed

lemma header_row:
  "writerow fieldnames
     = ''filename,description,technologies,last_merge_date,last_merge_author'' @ [CHR 0x0D, newline]"
  by code_simp

text \<open>
  Claim C2, as the code has it. The file begins with the header row
  \<^verbatim>\<open>filename,description,technologies,last_merge_date,last_merge_author\<close>, followed by one
  row per record, in order, each ended by carriage return and line feed. A field without
  comma, double quote, carriage return or line feed is written as it is; any other field is
  written between double quotes with its double quotes doubled, and reading a written field
  back gives the field.
\<close>

theorem csv_header_and_rows:
  "generate_csv labs
     = ''filename,description,technologies,last_merge_date,last_merge_author'' @ [CHR 0x0D, newline]
       @ concat (map (\<lambda>l. join '','' (map csv_field (lab_values l)) @ [CHR 0x0D, newline]) labs)
   \<and> (\<forall>s. csv_unquote (csv_field s) = s)
   \<and> (\<forall>s. (\<forall>c\<in>set s. c \<noteq> CHR '','' \<and> c \<noteq> dquote \<and> c \<noteq> CHR 0x0D \<and> c \<noteq> newline)
          \<longrightarrow> csv_field s = s)
   \<and> (\<forall>s. (\<exists>c\<in>set s. c = CHR '','' \<or> c = dquote \<or> c = CHR 0x0D \<or> c = newline)
          \<longrightarrow> (\<exists>body. csv_field s = [dquote] @ body @ [dquote] \<and> undouble body = s))"
proof (intro conjI allI impI)
  show "generate_csv labs
     = ''filename,description,technologies,last_merge_date,last_merge_author'' @ [CHR 0x0D, newline]
       @ concat (map (\<lambda>l. join '','' (map csv_field (lab_values l)) @ [CHR 0x0D, newline]) labs)"
    unfolding generate_csv_def header_row by (simp add: writerow_def)
next
  fix s show "csv_unquote (csv_field s) = s" by (rule csv_unquote_field)
next
  fix s assume "\<forall>c\<in>set s. c \<noteq> CHR '','' \<and> c \<noteq> dquote \<and> c \<noteq> CHR 0x0D \<and> c \<noteq> newline"
  then have "\<not> needs_quotes s" by (auto simp: needs_quotes_def list_ex_iff)
  then show "csv_field s = s" by (simp add: csv_field_def)
next
  fix s assume "\<exists>c\<in>set s. c = CHR '','' \<or> c = dquote \<or> c = CHR 0x0D \<or> c = newline"
  then have "needs_quotes s" by (auto simp: needs_quotes_def list_ex_iff)
  then have "csv_field s = [dquote] @ concat (map (\<lambda>c. if c = dquote then [dquote, dquote] else [c]) s) @ [dquote]"
    by (simp add: csv_field_def)
  with undouble_escape[of s]
  show "\<exists>body. csv_field s = [dquote] @ body @ [dquote] \<and> undouble body = s" by blast
qed


theorem csv_header_and_rows_witness:
  "generate_csv [lab_example]
     = ''filename,description,technologies,last_merge_date,last_merge_author'' @ [CHR 0x0D, newline]
       @ ''a.md,'' @ [dquote] @ ''Say '' @ [dquote, dquote] @ ''hi'' @ [dquote, dquote] @ '', ok''
       @ [dquote] @ '',RAG,2024-03-05,'' @ [dquote] @ ''Ann'' @ [newline] @ ''Lee'' @ [dquote]
       @ [CHR 0x0D, newline]"
proof -
  have e: "concat (map (\<lambda>l. join '','' (map csv_field (lab_values l)) @ [CHR 0x0D, newline]) [lab_example])
     = ''a.md,'' @ [dquote] @ ''Say '' @ [dquote, dquote] @ ''hi'' @ [dquote, dquote] @ '', ok''
       @ [dquote] @ '',RAG,2024-03-05,'' @ [dquote] @ ''Ann'' @ [newline] @ ''Lee'' @ [dquote]
       @ [CHR 0x0D, newline]"
    by code_simp
  show ?thesis
    using csv_header_and_rows[of "[lab_example]", THEN conjunct1] unfolding e by simp
qed

lemma prefix_le: "(p @ a \<le> p @ b) \<longleftrightarrow> (a \<le> (b :: 'a :: linorder list))"
  by (induction p) simp_all

lemma sorted_drop_prefix:
  "\<forall>p\<in>set xs. under base p \<Longrightarrow> sorted xs \<Longrightarrow> sorted (map (drop (length base)) (xs :: path list))"
proof (induction xs)
  case Nil
  then show ?case by simp
next
  case (Cons x xs)
  have "\<And>y. y \<in> set xs \<Longrightarrow> drop (length base) x \<le> drop (length base) y"
  proof -
    fix y assume y: "y \<in> set xs"
    with Cons.prems have le: "x \<le> y" by simp
    from Cons.prems y have "x = base @ drop (length base) x" "y = base @ drop (length base) y"
      by (auto simp: under_def) (metis append_take_drop_id)+
    with le prefix_le[of base "drop (length base) x" "drop (length base) y"] show "drop (length base) x \<le> drop (length base) y"
      by simp
  qed
  with Cons show ?case by auto
qed

text \<open>
  Claim C8. The files are processed in the sorted order of their paths, whatever order the
  directory walk lists them in; the records, and so the rows of the file after the header,
  are those of the readable files in that order, and the relative paths in the first column
  are in sorted path order too.
\<close>

theorem rows_in_sorted_path_order:
  "sorted (sort (rglob env instructions_path))
   \<and> mset (sort (rglob env instructions_path)) = mset (rglob env instructions_path)
   \<and> fst (process_lab_files env repo_root instructions_path)
       = List.map_filter (record_of env repo_root instructions_path) (sort (rglob env instructions_path))
   \<and> map filename (fst (process_lab_files env repo_root instructions_path))
       = map (\<lambda>p. path_str (drop (length instructions_path) p))
             (filter (readable env) (sort (rglob env instructions_path)))
   \<and> sorted (map (drop (length instructions_path))
               (filter (readable env) (sort (rglob env instructions_path))))
   \<and> main env repo_root instructions_path
       = writerow fieldnames
         @ concat (map (\<lambda>l. writerow (lab_values l))
             (List.map_filter (record_of env repo_root instructions_path)
                (sort (rglob env instructions_path))))"
proof -
  let ?fs = "sort (rglob env instructions_path)"
  have u: "\<forall>p\<in>set ?fs. under instructions_path p" using rglob_under by blast
  then have u': "\<forall>p\<in>set (filter (readable env) ?fs). under instructions_path p" by simp
  have s: "sorted (filter (readable env) ?fs)" using sorted_filter[of "\<lambda>x. x" "sort (rglob env instructions_path)" "readable env"] by simp
  have a: "map filename (fst (process_lab_files env repo_root instructions_path))
     = map (\<lambda>p. path_str (drop (length instructions_path) p)) (filter (readable env) ?fs)"
    using map_filter_filenames[OF u] by (simp add: process_lab_files_fst)
  show ?thesis
    using a sorted_drop_prefix[OF u' s]
    by (simp add: process_lab_files_fst main_def generate_csv_def)
qed


theorem rows_in_sorted_path_order_witness:
  "map filename (fst (process_lab_files env2 ''/repo'' [''labs''])) = [''a/y.md'', ''a-b/x.md'']"
proof -
  have e: "map (\<lambda>p. path_str (drop (length [''labs'']) p))
             (filter (readable env2) (sort (rglob env2 [''labs''])))
           = [''a/y.md'', ''a-b/x.md'']"
    by code_simp
  show ?thesis
    using rows_in_sorted_path_order[of env2 "[''labs'']" "''/repo''",
            THEN conjunct2, THEN conjunct2, THEN conjunct2, THEN conjunct1]
    unfolding e .
qed

section \<open>Properties of the content parser\<close>

text \<open>
  Claim C3 at a document with an empty metadata block. The pattern for the block asks for a
  line feed after the opening \<^verbatim>\<open>---\<close> line and another one before the closing \<^verbatim>\<open>---\<close>, so
  a block with nothing between the two lines is not recognized: the heading fallback runs and
  the description is the heading, not \<^verbatim>\<open>N/A\<close>.
\<close>

theorem empty_block_uses_heading:
  "re_match (no_flags\<lparr>dotall := True\<rparr>) frontmatter_re doc_empty_block = None
   \<and> parse_frontmatter doc_empty_block = (''Title'', [])
   \<and> full_description ''Title'' [] = ''Title''"
  by code_simp

text \<open>
  Claim C4 at a title in double quotes that contains an apostrophe. The pattern ends the
  value at the first quote character of either kind, so the title is cut at the apostrophe.
\<close>

theorem apostrophe_cuts_title:
  "parse_frontmatter doc_apostrophe = (''Azure'', ''Learn'')"
  by code_simp

text \<open>
  When the pattern for the block does match and neither key is found in it, the parser returns
  two empty strings without looking for a heading, and the description is \<^verbatim>\<open>N/A\<close>.
\<close>

lemma block_without_fields:
  assumes "re_match (no_flags\<lparr>dotall := True\<rparr>) frontmatter_re content = Some m"
    and "re_search no_flags title_re (group content m 1) = None"
    and "re_search no_flags desc_re (group content m 1) = None"
  shows "parse_frontmatter content = ([], [])
         \<and> full_description (fst (parse_frontmatter content)) (snd (parse_frontmatter content)) = ''N/A''"
  using assms by (simp add: parse_frontmatter_def Let_def full_description_def)

section \<open>Properties of the technology extractor\<close>

text \<open>
  The canonical words of a pattern are what its matches become once lower-cased and with
  their whitespace removed. Every match of a pattern of the catalog reduces to one of the
  canonical words of that pattern, and no word belongs to two patterns: two patterns never
  produce labels that are equal, even up to case.
\<close>

lemma slice_self: "slice s i i = []"
  by (simp add: slice_def)

lemma slice_append: "i \<le> j \<Longrightarrow> j \<le> k \<Longrightarrow> slice s i k = slice s i j @ slice s j k"
proof -
  assume a: "i \<le> j" "j \<le> k"
  have "take (k - i) (drop i s) = take (j - i) (drop i s) @ take (k - j) (drop (j - i) (drop i s))"
    using a take_add[of "j - i" "k - j" "drop i s"] by simp
  then show ?thesis using a by (simp add: slice_def)
qed

lemma canon_append: "canon (a @ b) = canon a @ canon b"
  by (simp add: canon_def py_lower_def)

lemma canon_Nil: "canon [] = []"
  by (simp add: canon_def py_lower_def)

lemma isspace_lower: "py_isspace (py_lower_char x) = py_isspace x"
  using code_lt[of x]
  by (auto simp: py_lower_char_def py_isspace_def Let_def code_char_of)

lemma canon_chr_eq: "ignorecase f \<Longrightarrow> chr_eq f c x \<Longrightarrow> canon [x] = canon [c]"
  using isspace_lower[of x] isspace_lower[of c]
  by (auto simp: chr_eq_def canon_def py_lower_def)

lemma canon_space: "py_isspace x \<Longrightarrow> canon [x] = []"
  by (simp add: canon_def py_lower_def isspace_lower)

lemma in_cw_Seq: "x \<in> set (cw a) \<Longrightarrow> y \<in> set (cw b) \<Longrightarrow> x @ y \<in> set (cw (Seq a b))"
  by auto


lemma ends_cw:
  "cw_ok r \<Longrightarrow> ignorecase f \<Longrightarrow> i \<le> length s \<Longrightarrow> (j, g) \<in> set (ends f r s i)
   \<Longrightarrow> canon (slice s i j) \<in> set (cw r)"
proof (induction f r s i arbitrary: j g rule: ends.induct)
  case (1 f s i)
  then show ?case by (simp add: in_ends slice_self canon_Nil)
next
  case (2 f c s i)
  then show ?case by (auto simp: in_ends slice_1 canon_chr_eq)
next
  case (3 f s i)
  then show ?case by simp
next
  case (4 f s i)
  then show ?case by (auto simp: in_ends slice_1 canon_space)
next
  case (5 f s i)
  then show ?case by simp
next
  case (6 f cs s i)
  then show ?case by simp
next
  case (7 f s i)
  then show ?case by (simp add: in_ends slice_self canon_Nil)
next
  case (8 f s i)
  then show ?case by (simp add: in_ends slice_self canon_Nil)
next
  case (9 f s i)
  then show ?case by (simp add: in_ends slice_self canon_Nil)
next
  case (10 f a b s i)
  from 10(6) obtain k g1 g2 where a: "(k, g1) \<in> set (ends f a s i)"
    and b: "(j, g2) \<in> set (ends f b s k)" by (auto simp: in_ends)
  from ends_bounds[OF a] 10(5) have ik: "i \<le> k" "k \<le> length s" by simp_all
  from ends_bounds[OF b] have kj: "k \<le> j" by simp
  from 10(3) have ok: "cw_ok a" "cw_ok b" by simp_all
  have x: "canon (slice s i k) \<in> set (cw a)"
    by (rule 10(1)[OF ok(1) 10(4) 10(5) a])
  have y: "canon (slice s k j) \<in> set (cw b)"
    by (rule 10(2)[OF a refl ok(2) 10(4) ik(2) b])
  from in_cw_Seq[OF x y] show ?case
    by (simp only: slice_append[OF ik(1) kj] canon_append)
next
  case (11 f a b s i)
  then show ?case by (auto simp: in_ends)
next
  case (12 f a s i)
  from 12(3) have ok: "cw_ok a" and e: "\<forall>w\<in>set (cw a). w = []" by (simp_all add: list_all_iff)
  from 12(6) consider "j = i" |
    k g1 g2 where "(k, g1) \<in> set (ends f a s i)" "i < k" "k \<le> length s"
      "(j, g2) \<in> set (ends f (Star a) s k)"
    by (subst (asm) in_ends_Star) blast
  then show ?case
  proof cases
    case 1
    then show ?thesis by (simp add: slice_self canon_Nil)
  next
    case 2
    from ends_bounds[OF 2(4)] have kj: "k \<le> j" by simp
    have "canon (slice s i k) \<in> set (cw a)"
      by (rule 12(1)[OF ok 12(4) 12(5) 2(1)])
    with e have x: "canon (slice s i k) = []" by blast
    have "canon (slice s k j) \<in> set (cw (Star a))"
      by (rule 12(2)[OF 2(1) refl _ 12(3) 12(4) 2(3) 2(4)]) (simp add: 2)
    then have y: "canon (slice s k j) = []" by simp
    from 2(2) have ik: "i \<le> k" by simp
    show ?thesis by (simp add: slice_append[OF ik kj] canon_append x y)
  qed
next
  case (13 f a s i)
  from 13(3) have ok: "cw_ok a" and e: "\<forall>w\<in>set (cw a). w = []" by (simp_all add: list_all_iff)
  from 13(6) consider "j = i" |
    k g1 g2 where "(k, g1) \<in> set (ends f a s i)" "i < k" "k \<le> length s"
      "(j, g2) \<in> set (ends f (LazyStar a) s k)"
    by (subst (asm) in_ends_LazyStar) blast
  then show ?case
  proof cases
    case 1
    then show ?thesis by (simp add: slice_self canon_Nil)
  next
    case 2
    from ends_bounds[OF 2(4)] have kj: "k \<le> j" by simp
    have "canon (slice s i k) \<in> set (cw a)"
      by (rule 13(1)[OF ok 13(4) 13(5) 2(1)])
    with e have x: "canon (slice s i k) = []" by blast
    have "canon (slice s k j) \<in> set (cw (LazyStar a))"
      by (rule 13(2)[OF 2(1) refl _ 13(3) 13(4) 2(3) 2(4)]) (simp add: 2)
    then have y: "canon (slice s k j) = []" by simp
    from 2(2) have ik: "i \<le> k" by simp
    show ?thesis by (simp add: slice_append[OF ik kj] canon_append x y)
  qed
next
  case (14 f n a s i)
  then show ?case by (auto simp: in_ends)
qed

declare findall_from.simps [simp del]

lemma findall_from_first:
  "findall_from f r s i = m # ms \<Longrightarrow>
   \<exists>k j g. k \<le> length s \<and> (j, g) \<in> set (ends f r s k) \<and> m = slice s k j"
proof (induction f r s i rule: findall_from.induct)
  case (1 f r s i)
  show ?case
  proof (cases "length s < i")
    case True
    with 1(3) show ?thesis by (subst (asm) findall_from.simps) simp
  next
    case False
    show ?thesis
    proof (cases "ends f r s i")
      case Nil
      with False 1(3) have "findall_from f r s (Suc i) = m # ms"
        by (subst (asm) findall_from.simps) simp
      from 1(1)[OF False Nil this] show ?thesis .
    next
      case (Cons x xs)
      obtain j g where x: "x = (j, g)" by (cases x)
      with False Cons 1(3) have "m = slice s i j"
        by (subst (asm) findall_from.simps) simp
      moreover have "(j, g) \<in> set (ends f r s i)" using Cons x by simp
      ultimately show ?thesis using False by (intro exI[of _ i] exI[of _ j] exI[of _ g]) simp
    qed
  qed
qed

lemma filter_dropWhile_not: "filter Q (dropWhile (\<lambda>x. \<not> Q x) xs) = filter Q xs"
  by (induction xs) auto

lemma canon_strip: "canon (strip m) = canon m"
proof -
  let ?Q = "\<lambda>c. \<not> py_isspace c"
  have l: "\<And>xs. filter ?Q (dropWhile py_isspace xs) = filter ?Q xs"
    using filter_dropWhile_not[of ?Q] by simp
  have c: "\<And>xs. canon xs = py_lower (filter ?Q xs)"
    by (simp add: canon_def py_lower_def filter_map comp_def isspace_lower)
  have "filter ?Q (strip m) = filter ?Q m"
  proof -
    have "filter ?Q (rev (dropWhile py_isspace (rev (dropWhile py_isspace m))))
        = rev (filter ?Q (dropWhile py_isspace (rev (dropWhile py_isspace m))))"
      by (simp add: rev_filter)
    also have "\<dots> = rev (filter ?Q (rev (dropWhile py_isspace m)))" by (simp only: l)
    also have "\<dots> = filter ?Q (dropWhile py_isspace m)" by (simp add: rev_filter)
    also have "\<dots> = filter ?Q m" by (simp only: l)
    finally show ?thesis by (simp add: strip_def lstrip_def rstrip_def)
  qed
  then show ?thesis by (simp add: c)
qed

lemma canon_lower: "py_lower a = py_lower b \<Longrightarrow> canon a = canon b"
  by (simp add: canon_def)

lemma tech_ok: "list_all cw_ok tech_patterns"
  by code_simp

lemma tech_distinct: "distinct tech_patterns"
  by code_simp

lemma length_tech_patterns: "length tech_patterns = 19"
  by code_simp

lemma tech_words_distinct: "distinct (concat (map cw tech_patterns))"
  by code_simp

lemma distinct_concat_map_eq:
  "distinct (concat (map h xs)) \<Longrightarrow> x \<in> set xs \<Longrightarrow> y \<in> set xs \<Longrightarrow> w \<in> set (h x) \<Longrightarrow> w \<in> set (h y)
   \<Longrightarrow> x = y"
  by (induction xs) auto

lemma findall_from_hd:
  "findall_from f r s i = m # ms \<Longrightarrow>
   \<exists>k j g rest. i \<le> k \<and> k \<le> length s \<and> ends f r s k = (j, g) # rest
      \<and> (\<forall>k'. i \<le> k' \<and> k' < k \<longrightarrow> ends f r s k' = []) \<and> m = slice s k j"
proof (induction f r s i rule: findall_from.induct)
  case (1 f r s i)
  show ?case
  proof (cases "length s < i")
    case True
    with 1(3) show ?thesis by (subst (asm) findall_from.simps) simp
  next
    case False
    show ?thesis
    proof (cases "ends f r s i")
      case Nil
      with False 1(3) have "findall_from f r s (Suc i) = m # ms"
        by (subst (asm) findall_from.simps) simp
      from 1(1)[OF False Nil this] obtain k j g rest where
        k: "Suc i \<le> k" "k \<le> length s" "ends f r s k = (j, g) # rest"
           "\<forall>k'. Suc i \<le> k' \<and> k' < k \<longrightarrow> ends f r s k' = []" "m = slice s k j"
        by blast
      have "\<forall>k'. i \<le> k' \<and> k' < k \<longrightarrow> ends f r s k' = []"
      proof (intro allI impI)
        fix k' assume a: "i \<le> k' \<and> k' < k"
        show "ends f r s k' = []"
        proof (cases "k' = i")
          case True
          then show ?thesis using Nil by simp
        next
          case False
          with a have "Suc i \<le> k' \<and> k' < k" by simp
          with k(4) show ?thesis by blast
        qed
      qed
      moreover have "i \<le> k" using k(1) by simp
      ultimately show ?thesis using k(2,3,5) by blast
    next
      case (Cons x xs)
      obtain j g where x: "x = (j, g)" by (cases x)
      with False Cons 1(3) have "m = slice s i j"
        by (subst (asm) findall_from.simps) simp
      moreover have "ends f r s i = (j, g) # xs" using Cons x by simp
      moreover have "\<forall>k'. i \<le> k' \<and> k' < i \<longrightarrow> ends f r s k' = []" by auto
      moreover have "i \<le> i" "i \<le> length s" using False by simp_all
      ultimately show ?thesis by blast
    qed
  qed
qed

lemma findall_from_Nil:
  "findall_from f r s i = [] \<Longrightarrow> i \<le> k \<Longrightarrow> k \<le> length s \<Longrightarrow> ends f r s k = []"
proof (induction f r s i rule: findall_from.induct)
  case (1 f r s i)
  have nl: "\<not> length s < i" using 1(4,5) by simp
  show ?case
  proof (cases "ends f r s i")
    case Nil
    with nl 1(3) have n: "findall_from f r s (Suc i) = []"
      by (subst (asm) findall_from.simps) simp
    show ?thesis
    proof (cases "k = i")
      case True
      then show ?thesis using Nil by simp
    next
      case False
      with 1(4) have "Suc i \<le> k" by simp
      from 1(1)[OF nl Nil n this 1(5)] show ?thesis .
    qed
  next
    case (Cons x xs)
    obtain j g where x: "x = (j, g)" by (cases x)
    with nl Cons 1(3) have False
      by (subst (asm) findall_from.simps) simp
    then show ?thesis ..
  qed
qed

lemma first_match_Some:
  "first_match content p = Some m \<Longrightarrow>
   \<exists>k j g rest. k \<le> length content \<and> ends ic p content k = (j, g) # rest
      \<and> (\<forall>k'<k. ends ic p content k' = []) \<and> m = slice content k j"
proof -
  assume a: "first_match content p = Some m"
  then obtain ms where "findall_from ic p content 0 = m # ms"
    by (auto simp: first_match_def re_findall_def split: list.splits)
  from findall_from_hd[OF this] show ?thesis by auto
qed

lemma first_match_None:
  "first_match content p = None \<Longrightarrow> k \<le> length content \<Longrightarrow> ends ic p content k = []"
proof -
  assume a: "first_match content p = None" and k: "k \<le> length content"
  then have "findall_from ic p content 0 = []"
    by (auto simp: first_match_def re_findall_def split: list.splits)
  from findall_from_Nil[OF this _ k] show ?thesis by simp
qed

lemma ignorecase_ic: "ignorecase ic"
  by (simp add: ic_def)

lemma label_cw:
  assumes p: "p \<in> set tech_patterns" and m: "matches content p"
  shows "canon (label content p) \<in> set (cw p)"
proof -
  from m obtain x where x: "first_match content p = Some x"
    by (auto simp: matches_def)
  from first_match_Some[OF x] obtain k j g rest where
    k: "k \<le> length content" "ends ic p content k = (j, g) # rest" "x = slice content k j"
    by blast
  have ok: "cw_ok p" using tech_ok p by (simp add: list_all_iff)
  have "(j, g) \<in> set (ends ic p content k)" using k(2) by simp
  from ends_cw[OF ok ignorecase_ic k(1) this] have "canon x \<in> set (cw p)" using k(3) by simp
  then show ?thesis using x by (simp add: label_def canon_strip)
qed

lemma label_inj:
  assumes "p \<in> set tech_patterns" "q \<in> set tech_patterns"
    and "matches content p" "matches content q"
    and "py_lower (label content p) = py_lower (label content q)"
  shows "p = q"
proof -
  have "canon (label content p) \<in> set (cw p)" using assms(1,3) by (rule label_cw)
  moreover have "canon (label content p) \<in> set (cw q)"
    using label_cw[OF assms(2,4)] canon_lower[OF assms(5)] by simp
  ultimately show ?thesis
    using distinct_concat_map_eq[OF tech_words_distinct assms(1,2)] by blast
qed

lemma tech_step_eq:
  "tech_step content T p = (if matches content p then set_add (label content p) T else T)"
  by (auto simp: tech_step_def matches_def label_def first_match_def ic_def split: list.splits)

lemma foldl_tech_step:
  "set (ps0 @ ps) \<subseteq> set tech_patterns \<Longrightarrow> distinct (ps0 @ ps) \<Longrightarrow>
   foldl (tech_step content) (map (label content) (filter (matches content) ps0)) ps
     = map (label content) (filter (matches content) (ps0 @ ps))"
proof (induction ps arbitrary: ps0)
  case Nil
  then show ?case by simp
next
  case (Cons p ps)
  have sub: "set ((ps0 @ [p]) @ ps) \<subseteq> set tech_patterns" using Cons.prems(1) by simp
  have dis: "distinct ((ps0 @ [p]) @ ps)" using Cons.prems(2) by simp
  have step: "tech_step content (map (label content) (filter (matches content) ps0)) p
      = map (label content) (filter (matches content) (ps0 @ [p]))"
  proof (cases "matches content p")
    case False
    then show ?thesis by (simp add: tech_step_eq)
  next
    case True
    have "label content p \<notin> set (map (label content) (filter (matches content) ps0))"
    proof
      assume "label content p \<in> set (map (label content) (filter (matches content) ps0))"
      then obtain q where q: "q \<in> set ps0" "matches content q" "label content q = label content p"
        by auto
      have "p \<in> set tech_patterns" "q \<in> set tech_patterns" using Cons.prems(1) q(1) by auto
      from label_inj[OF this True q(2)] q(3) have "p = q" by simp
      with q(1) Cons.prems(2) show False by simp
    qed
    then show ?thesis using True by (simp add: tech_step_eq set_add_def)
  qed
  have "foldl (tech_step content) (map (label content) (filter (matches content) ps0)) (p # ps)
      = foldl (tech_step content) (map (label content) (filter (matches content) (ps0 @ [p]))) ps"
    by (simp only: foldl_Cons step)
  also have "\<dots> = map (label content) (filter (matches content) ((ps0 @ [p]) @ ps))"
    using Cons.IH[OF sub dis] .
  finally show ?case by simp
qed

lemma tech_set_eq:
  "tech_set content = map (label content) (filter (matches content) tech_patterns)"
  using foldl_tech_step[of "[]" tech_patterns content] tech_distinct
  by (simp add: tech_set_def)

lemma lower_inj_tech_set: "inj_on py_lower (set (tech_set content))"
  unfolding tech_set_eq
  by (rule inj_onI) (auto dest: label_inj)

lemma distinct_tech_set: "distinct (tech_set content)"
  unfolding tech_set_eq
  by (rule distinct_map[THEN iffD2]) (auto simp: inj_on_def tech_distinct dest: label_inj)

lemma length_tech_set: "length (tech_set content) \<le> 19"
  unfolding tech_set_eq
  using length_filter_le[of "matches content" tech_patterns]
  by (simp add: length_tech_patterns)

lemma filter_eq_single: "distinct zs \<Longrightarrow> k \<in> set zs \<Longrightarrow> filter (\<lambda>x. x = k) zs = [k]"
  by (induction zs) (auto simp: filter_empty_conv)

lemma sort_key_perm:
  assumes "inj_on f (set xs)" "distinct xs" "mset ys = mset xs"
  shows "sort_key f ys = sort_key f xs"
proof (rule properties_for_sort_key)
  show "mset (sort_key f xs) = mset ys" using assms(3) by simp
  show "sorted (map f (sort_key f xs))" by simp
  fix k assume "k \<in> set (sort_key f xs)"
  then have k: "k \<in> set xs" by simp
  have s: "set ys = set xs" using assms(3) by (metis set_mset_mset)
  have d: "distinct ys" using assms(2,3) by (metis distinct_count_atmost_1 set_mset_mset)
  have e: "\<And>zs. set zs = set xs \<Longrightarrow> distinct zs \<Longrightarrow> filter (\<lambda>x. f k = f x) zs = [k]"
  proof -
    fix zs assume z: "set zs = set xs" "distinct zs"
    have "filter (\<lambda>x. f k = f x) zs = filter (\<lambda>x. x = k) zs"
      using assms(1) k z(1) by (intro filter_cong) (auto simp: inj_on_def)
    also have "\<dots> = [k]" using z k by (simp add: filter_eq_single)
    finally show "filter (\<lambda>x. f k = f x) zs = [k]" .
  qed
  have "filter (\<lambda>x. f k = f x) (sort_key f xs) = [k]"
    using e[of "sort_key f xs"] assms(2) by simp
  moreover have "filter (\<lambda>x. f k = f x) ys = [k]" using e[OF s d] .
  ultimately show "filter (\<lambda>x. f k = f x) (sort_key f xs) = filter (\<lambda>x. f k = f x) ys" by simp
qed


end
